theory Spec2Isabelle
  imports Main "HOL-Library.Sublist"
begin

section \<open>Python values seen by the facade\<close>

text \<open>
  The facade of \<^verbatim>\<open>src/wormhole/wormhole.py\<close> passes opaque application values around and
  inspects them in three ways only: identity with \<^verbatim>\<open>None\<close>, truthiness, and
  \<^verbatim>\<open>isinstance\<close> against text and against \<^verbatim>\<open>Exception\<close>. The datatype below has one
  constructor per kind of value these tests tell apart.

  Modelled from the spec: the exception classes of \<^verbatim>\<open>wormhole/errors.py\<close> (imported on
  line 13, their declarations are absent). The spec's error taxonomy lists WelcomeError and
  WormholeClosed as error conditions, so their instances are instances of \<^verbatim>\<open>Exception\<close>.
  A Twisted \<^verbatim>\<open>Failure\<close> wraps an exception and is not itself an \<^verbatim>\<open>Exception\<close> instance.
\<close>

datatype pyval =
    PNone
  | PBool bool
  | PInt int
  | PStr string
  | PBytes string
  | PDict "(string \<times> pyval) list"
  | PException string
  | PWelcomeError pyval
  | PWormholeClosed pyval
  | PFailure pyval

text \<open>\<^verbatim>\<open>bool(v)\<close>: what \<^verbatim>\<open>if v:\<close> and \<^verbatim>\<open>if not v:\<close> test.\<close>

fun truthy :: "pyval \<Rightarrow> bool" where
  "truthy PNone = False"
| "truthy (PBool b) = b"
| "truthy (PInt i) = (i \<noteq> 0)"
| "truthy (PStr s) = (s \<noteq> [])"
| "truthy (PBytes s) = (s \<noteq> [])"
| "truthy (PDict kvs) = (kvs \<noteq> [])"
| "truthy (PException m) = True"
| "truthy (PWelcomeError v) = True"
| "truthy (PWormholeClosed v) = True"
| "truthy (PFailure v) = True"

text \<open>\<^verbatim>\<open>isinstance(v, type(""))\<close> under \<^verbatim>\<open>unicode_literals\<close>: is the value text?\<close>

fun is_text :: "pyval \<Rightarrow> bool" where
  "is_text (PStr s) = True"
| "is_text v = False"

text \<open>\<^verbatim>\<open>isinstance(v, Exception)\<close>.\<close>

fun is_exception :: "pyval \<Rightarrow> bool" where
  "is_exception (PException m) = True"
| "is_exception (PWelcomeError v) = True"
| "is_exception (PWormholeClosed v) = True"
| "is_exception v = False"

text \<open>Exceptions raised by the code under study (not values it passes around).\<close>

datatype error =
    TypeError
  | NoKeyError
  | AlreadyCalledError
  | AttributeError
  | TypeError_not_callable

section \<open>Twisted Deferreds\<close>

text \<open>
  A \<^verbatim>\<open>Deferred\<close> is a heap object that is fired at most once. The heap is the number of
  objects allocated so far together with the history of firings, oldest first: a Deferred
  is pending exactly when the history has no entry for it. A Deferred whose result is a
  \<^verbatim>\<open>Failure\<close> runs its errbacks, any other result runs its callbacks.
\<close>

record heap =
  next_id :: nat
  fired :: "(nat \<times> pyval) list"

definition result_of :: "heap \<Rightarrow> nat \<Rightarrow> pyval option" where
  "result_of h d = map_of (fired h) d"

definition defer_Deferred :: "heap \<Rightarrow> nat \<times> heap" where
  "defer_Deferred h = (next_id h, h\<lparr>next_id := Suc (next_id h)\<rparr>)"

text \<open>\<^verbatim>\<open>d.callback(v)\<close>: raises AlreadyCalledError on a Deferred that has fired.\<close>

definition callback :: "heap \<Rightarrow> nat \<Rightarrow> pyval \<Rightarrow> error + heap" where
  "callback h d v =
     (if result_of h d = None then Inr (h\<lparr>fired := fired h @ [(d, v)]\<rparr>)
      else Inl AlreadyCalledError)"

text \<open>\<^verbatim>\<open>d.errback(v)\<close> wraps anything that is not a Failure into one.\<close>

fun as_failure :: "pyval \<Rightarrow> pyval" where
  "as_failure (PFailure v) = PFailure v"
| "as_failure v = PFailure v"

definition errback :: "heap \<Rightarrow> nat \<Rightarrow> pyval \<Rightarrow> error + heap" where
  "errback h d v = callback h d (as_failure v)"

definition defer_succeed :: "heap \<Rightarrow> pyval \<Rightarrow> nat \<times> heap" where
  "defer_succeed h v =
     (next_id h, h\<lparr>next_id := Suc (next_id h), fired := fired h @ [(next_id h, v)]\<rparr>)"

definition defer_fail :: "heap \<Rightarrow> pyval \<Rightarrow> nat \<times> heap" where
  "defer_fail h v = defer_succeed h (as_failure v)"

text \<open>
  \<^verbatim>\<open>for d in observers: d.callback(v)\<close>. The loop stops at the first exception and keeps
  the firings made before it.
\<close>

fun callback_each :: "heap \<Rightarrow> nat list \<Rightarrow> pyval \<Rightarrow> error option \<times> heap" where
  "callback_each h [] v = (None, h)"
| "callback_each h (d # ds) v =
     (case callback h d v of
        Inl e \<Rightarrow> (Some e, h)
      | Inr h' \<Rightarrow> callback_each h' ds v)"

definition errback_each :: "heap \<Rightarrow> nat list \<Rightarrow> pyval \<Rightarrow> error option \<times> heap" where
  "errback_each h ds v = callback_each h ds (as_failure v)"

text \<open>Sequencing of two statements, the second skipped when the first raised.\<close>

definition and_then ::
  "error option \<times> heap \<Rightarrow> (heap \<Rightarrow> error option \<times> heap) \<Rightarrow> error option \<times> heap" where
  "and_then r f = (case r of (Some e, h) \<Rightarrow> (Some e, h) | (None, h) \<Rightarrow> f h)"

section \<open>The promise-style facade: class \<^verbatim>\<open>_DeferredWormhole\<close>\<close>

text \<open>Calls forwarded to the session controller (\<^verbatim>\<open>self._boss\<close>), in order.\<close>

datatype boss_call =
    Boss_allocate_code pyval
  | Boss_input_code pyval
  | Boss_set_code pyval
  | Boss_send pyval
  | Boss_close

text \<open>
  The fields of \<^verbatim>\<open>__init__\<close>, each \<^verbatim>\<open>_name\<close> as \<open>w_name\<close>, and the two things the
  object acts on: the controller (the calls it has received) and the heap of Deferreds.
\<close>

record deferred_wormhole =
  w_code :: pyval
  w_code_observers :: "nat list"
  w_key :: pyval
  w_verifier :: pyval
  w_verifier_observers :: "nat list"
  w_version :: pyval
  w_version_observers :: "nat list"
  w_received_data :: "pyval list"
  w_received_observers :: "nat list"
  w_observer_result :: pyval
  w_closed_result :: pyval
  w_closed_observers :: "nat list"
  w_boss :: "boss_call list"
  w_deferreds :: heap

definition init :: deferred_wormhole where
  "init = \<lparr> w_code = PNone, w_code_observers = [], w_key = PNone,
            w_verifier = PNone, w_verifier_observers = [],
            w_version = PNone, w_version_observers = [],
            w_received_data = [], w_received_observers = [],
            w_observer_result = PNone, w_closed_result = PNone,
            w_closed_observers = [], w_boss = [],
            w_deferreds = \<lparr> next_id = 0, fired = [] \<rparr> \<rparr>"

subsection \<open>From above: the application's calls\<close>

definition when_code :: "deferred_wormhole \<Rightarrow> nat \<times> deferred_wormhole" where
  "when_code s =
     (if w_observer_result s \<noteq> PNone then
        (case defer_fail (w_deferreds s) (w_observer_result s) of
           (d, h) \<Rightarrow> (d, s\<lparr>w_deferreds := h\<rparr>))
      else if w_code s \<noteq> PNone then
        (case defer_succeed (w_deferreds s) (w_code s) of
           (d, h) \<Rightarrow> (d, s\<lparr>w_deferreds := h\<rparr>))
      else
        (case defer_Deferred (w_deferreds s) of
           (d, h) \<Rightarrow> (d, s\<lparr>w_deferreds := h, w_code_observers := w_code_observers s @ [d]\<rparr>)))"

definition when_verifier :: "deferred_wormhole \<Rightarrow> nat \<times> deferred_wormhole" where
  "when_verifier s =
     (if w_observer_result s \<noteq> PNone then
        (case defer_fail (w_deferreds s) (w_observer_result s) of
           (d, h) \<Rightarrow> (d, s\<lparr>w_deferreds := h\<rparr>))
      else if w_verifier s \<noteq> PNone then
        (case defer_succeed (w_deferreds s) (w_verifier s) of
           (d, h) \<Rightarrow> (d, s\<lparr>w_deferreds := h\<rparr>))
      else
        (case defer_Deferred (w_deferreds s) of
           (d, h) \<Rightarrow>
             (d, s\<lparr>w_deferreds := h, w_verifier_observers := w_verifier_observers s @ [d]\<rparr>)))"

definition when_version :: "deferred_wormhole \<Rightarrow> nat \<times> deferred_wormhole" where
  "when_version s =
     (if w_observer_result s \<noteq> PNone then
        (case defer_fail (w_deferreds s) (w_observer_result s) of
           (d, h) \<Rightarrow> (d, s\<lparr>w_deferreds := h\<rparr>))
      else if w_version s \<noteq> PNone then
        (case defer_succeed (w_deferreds s) (w_version s) of
           (d, h) \<Rightarrow> (d, s\<lparr>w_deferreds := h\<rparr>))
      else
        (case defer_Deferred (w_deferreds s) of
           (d, h) \<Rightarrow>
             (d, s\<lparr>w_deferreds := h, w_version_observers := w_version_observers s @ [d]\<rparr>)))"

text \<open>\<^verbatim>\<open>self._received_data.pop(0)\<close> is guarded by the truthiness of the list.\<close>

definition when_received :: "deferred_wormhole \<Rightarrow> nat \<times> deferred_wormhole" where
  "when_received s =
     (if w_observer_result s \<noteq> PNone then
        (case defer_fail (w_deferreds s) (w_observer_result s) of
           (d, h) \<Rightarrow> (d, s\<lparr>w_deferreds := h\<rparr>))
      else
        (case w_received_data s of
           p # ps \<Rightarrow>
             (case defer_succeed (w_deferreds s) p of
                (d, h) \<Rightarrow> (d, s\<lparr>w_received_data := ps, w_deferreds := h\<rparr>))
         | [] \<Rightarrow>
             (case defer_Deferred (w_deferreds s) of
                (d, h) \<Rightarrow>
                  (d, s\<lparr>w_deferreds := h,
                         w_received_observers := w_received_observers s @ [d]\<rparr>))))"

definition allocate_code :: "deferred_wormhole \<Rightarrow> pyval \<Rightarrow> deferred_wormhole" where
  "allocate_code s code_length = s\<lparr>w_boss := w_boss s @ [Boss_allocate_code code_length]\<rparr>"

definition input_code :: "deferred_wormhole \<Rightarrow> pyval \<Rightarrow> deferred_wormhole" where
  "input_code s stdio = s\<lparr>w_boss := w_boss s @ [Boss_input_code stdio]\<rparr>"

definition set_code :: "deferred_wormhole \<Rightarrow> pyval \<Rightarrow> deferred_wormhole" where
  "set_code s c = s\<lparr>w_boss := w_boss s @ [Boss_set_code c]\<rparr>"

definition send :: "deferred_wormhole \<Rightarrow> pyval \<Rightarrow> deferred_wormhole" where
  "send s plaintext = s\<lparr>w_boss := w_boss s @ [Boss_send plaintext]\<rparr>"

text \<open>
  \<^verbatim>\<open>derive_key\<close> of \<^verbatim>\<open>wormhole/_key.py\<close> and \<^verbatim>\<open>to_bytes\<close> of \<^verbatim>\<open>wormhole/util.py\<close> are
  imported and absent: they are the parameters \<open>kdf\<close> and \<open>to_bytes\<close>.
\<close>

definition derive_key ::
  "(pyval \<Rightarrow> 'b \<Rightarrow> pyval \<Rightarrow> error + 'k) \<Rightarrow> (pyval \<Rightarrow> 'b) \<Rightarrow>
   deferred_wormhole \<Rightarrow> pyval \<Rightarrow> pyval \<Rightarrow> error + 'k" where
  "derive_key kdf to_bytes s purpose len =
     (if \<not> is_text purpose then Inl TypeError
      else if \<not> truthy (w_key s) then Inl NoKeyError
      else kdf (w_key s) (to_bytes purpose) len)"

definition close :: "deferred_wormhole \<Rightarrow> nat \<times> deferred_wormhole" where
  "close s =
     (if truthy (w_closed_result s) then
        (case defer_succeed (w_deferreds s) (w_closed_result s) of
           (d, h) \<Rightarrow> (d, s\<lparr>w_deferreds := h\<rparr>))
      else
        (case defer_Deferred (w_deferreds s) of
           (d, h) \<Rightarrow>
             (d, s\<lparr>w_deferreds := h,
                    w_closed_observers := w_closed_observers s @ [d],
                    w_boss := w_boss s @ [Boss_close]\<rparr>)))"

subsection \<open>From below: the controller's events\<close>

text \<open>
  Each event returns the exception it raised, if any, and the object as the event left it:
  an exception in the middle of a method keeps the assignments made before it.
\<close>

definition got_code :: "deferred_wormhole \<Rightarrow> pyval \<Rightarrow> error option \<times> deferred_wormhole" where
  "got_code s c =
     (case callback_each (w_deferreds s) (w_code_observers s) c of
        (Some e, h) \<Rightarrow> (Some e, s\<lparr>w_code := c, w_deferreds := h\<rparr>)
      | (None, h) \<Rightarrow> (None, s\<lparr>w_code := c, w_deferreds := h, w_code_observers := []\<rparr>))"

definition got_welcome :: "deferred_wormhole \<Rightarrow> pyval \<Rightarrow> deferred_wormhole" where
  "got_welcome s welcome = s"

definition got_key :: "deferred_wormhole \<Rightarrow> pyval \<Rightarrow> deferred_wormhole" where
  "got_key s k = s\<lparr>w_key := k\<rparr>"

definition got_verifier :: "deferred_wormhole \<Rightarrow> pyval \<Rightarrow> error option \<times> deferred_wormhole" where
  "got_verifier s v =
     (case callback_each (w_deferreds s) (w_verifier_observers s) v of
        (Some e, h) \<Rightarrow> (Some e, s\<lparr>w_verifier := v, w_deferreds := h\<rparr>)
      | (None, h) \<Rightarrow>
          (None, s\<lparr>w_verifier := v, w_deferreds := h, w_verifier_observers := []\<rparr>))"

definition got_version :: "deferred_wormhole \<Rightarrow> pyval \<Rightarrow> error option \<times> deferred_wormhole" where
  "got_version s v =
     (case callback_each (w_deferreds s) (w_version_observers s) v of
        (Some e, h) \<Rightarrow> (Some e, s\<lparr>w_version := v, w_deferreds := h\<rparr>)
      | (None, h) \<Rightarrow>
          (None, s\<lparr>w_version := v, w_deferreds := h, w_version_observers := []\<rparr>))"

text \<open>\<^verbatim>\<open>self._received_observers.pop(0).callback(plaintext)\<close>: the pop comes first.\<close>

definition received :: "deferred_wormhole \<Rightarrow> pyval \<Rightarrow> error option \<times> deferred_wormhole" where
  "received s plaintext =
     (case w_received_observers s of
        d # ds \<Rightarrow>
          (case callback (w_deferreds s) d plaintext of
             Inl e \<Rightarrow> (Some e, s\<lparr>w_received_observers := ds\<rparr>)
           | Inr h \<Rightarrow> (None, s\<lparr>w_received_observers := ds, w_deferreds := h\<rparr>))
      | [] \<Rightarrow> (None, s\<lparr>w_received_data := w_received_data s @ [plaintext]\<rparr>))"

text \<open>
  \<^verbatim>\<open>closed\<close> sets the two results, then runs four loops: over the verifier, version and
  received observers with \<^verbatim>\<open>errback\<close>, over the close observers with \<^verbatim>\<open>callback\<close>.
  There is no loop over \<^verbatim>\<open>self._code_observers\<close>, and no list is emptied.
\<close>

definition closed_results :: "pyval \<Rightarrow> pyval \<times> pyval" where
  "closed_results result =
     (if is_exception result then (PFailure result, PFailure result)
      else (PWormholeClosed result, result))"

definition closed :: "deferred_wormhole \<Rightarrow> pyval \<Rightarrow> error option \<times> deferred_wormhole" where
  "closed s result =
     (case closed_results result of
        (obs_res, cl_res) \<Rightarrow>
          (case and_then (and_then (and_then
                  (errback_each (w_deferreds s) (w_verifier_observers s) obs_res)
                  (\<lambda>h. errback_each h (w_version_observers s) obs_res))
                  (\<lambda>h. errback_each h (w_received_observers s) obs_res))
                  (\<lambda>h. callback_each h (w_closed_observers s) cl_res) of
             (r, h) \<Rightarrow>
               (r, s\<lparr>w_observer_result := obs_res, w_closed_result := cl_res,
                      w_deferreds := h\<rparr>)))"

subsection \<open>Sessions: sequences of calls and events\<close>

datatype event =
    WhenCode
  | WhenVerifier
  | WhenVersion
  | WhenReceived
  | AllocateCode pyval
  | InputCode pyval
  | SetCode pyval
  | Send pyval
  | Close
  | GotCode pyval
  | GotWelcome pyval
  | GotKey pyval
  | GotVerifier pyval
  | GotVersion pyval
  | Received pyval
  | Closed pyval

datatype outcome = Raised error | Returned_None | Returned_Deferred nat

definition raised_or_none :: "error option \<Rightarrow> outcome" where
  "raised_or_none r = (case r of None \<Rightarrow> Returned_None | Some e \<Rightarrow> Raised e)"

fun step :: "deferred_wormhole \<Rightarrow> event \<Rightarrow> outcome \<times> deferred_wormhole" where
  "step s WhenCode = (case when_code s of (d, s') \<Rightarrow> (Returned_Deferred d, s'))"
| "step s WhenVerifier = (case when_verifier s of (d, s') \<Rightarrow> (Returned_Deferred d, s'))"
| "step s WhenVersion = (case when_version s of (d, s') \<Rightarrow> (Returned_Deferred d, s'))"
| "step s WhenReceived = (case when_received s of (d, s') \<Rightarrow> (Returned_Deferred d, s'))"
| "step s (AllocateCode n) = (Returned_None, allocate_code s n)"
| "step s (InputCode x) = (Returned_None, input_code s x)"
| "step s (SetCode c) = (Returned_None, set_code s c)"
| "step s (Send p) = (Returned_None, send s p)"
| "step s Close = (case close s of (d, s') \<Rightarrow> (Returned_Deferred d, s'))"
| "step s (GotCode c) = (case got_code s c of (r, s') \<Rightarrow> (raised_or_none r, s'))"
| "step s (GotWelcome w) = (Returned_None, got_welcome s w)"
| "step s (GotKey k) = (Returned_None, got_key s k)"
| "step s (GotVerifier v) = (case got_verifier s v of (r, s') \<Rightarrow> (raised_or_none r, s'))"
| "step s (GotVersion v) = (case got_version s v of (r, s') \<Rightarrow> (raised_or_none r, s'))"
| "step s (Received p) = (case received s p of (r, s') \<Rightarrow> (raised_or_none r, s'))"
| "step s (Closed r) = (case closed s r of (e, s') \<Rightarrow> (raised_or_none e, s'))"

text \<open>The object after a sequence of calls and events; it lives on after an exception.\<close>

fun run :: "deferred_wormhole \<Rightarrow> event list \<Rightarrow> deferred_wormhole" where
  "run s [] = s"
| "run s (e # es) = run (snd (step s e)) es"

text \<open>The Deferreds returned, in call order, by the calls of a session that satisfy \<open>P\<close>.\<close>

fun futures :: "(event \<Rightarrow> bool) \<Rightarrow> deferred_wormhole \<Rightarrow> event list \<Rightarrow> nat list" where
  "futures P s [] = []"
| "futures P s (e # es) =
     (case fst (step s e) of
        Returned_Deferred d \<Rightarrow> (if P e then [d] else [])
      | Raised x \<Rightarrow> []
      | Returned_None \<Rightarrow> []) @ futures P (snd (step s e)) es"

text \<open>The payloads of the \<^verbatim>\<open>received\<close> events of a session, in delivery order.\<close>

fun payloads :: "event list \<Rightarrow> pyval list" where
  "payloads [] = []"
| "payloads (Received p # es) = p # payloads es"
| "payloads (e # es) = payloads es"

fun is_Closed :: "event \<Rightarrow> bool" where
  "is_Closed (Closed r) = True"
| "is_Closed e = False"

text \<open>A session is open while no \<^verbatim>\<open>closed\<close> event has been delivered.\<close>

definition open_session :: "event list \<Rightarrow> bool" where
  "open_session es = (filter is_Closed es = [])"

subsection \<open>Well-formed states\<close>

text \<open>All Deferreds that some observer list holds, in the order of the fields.\<close>

definition observers :: "deferred_wormhole \<Rightarrow> nat list" where
  "observers s =
     w_code_observers s @ w_verifier_observers s @ w_version_observers s @
     w_received_observers s @ w_closed_observers s"

text \<open>
  Every state of a session is allocated: no Deferred fired twice, and every Deferred that was
  fired or is held by an observer list has been created.
\<close>

definition heap_ok :: "heap \<Rightarrow> bool" where
  "heap_ok h =
     (distinct (map fst (fired h)) \<and> list_all (\<lambda>d. d < next_id h) (map fst (fired h)))"

definition allocated :: "deferred_wormhole \<Rightarrow> bool" where
  "allocated s =
     (heap_ok (w_deferreds s) \<and>
      list_all (\<lambda>d. d < next_id (w_deferreds s)) (observers s))"

text \<open>
  Until \<^verbatim>\<open>closed\<close> is delivered a state is live: in addition both results are unset, no
  Deferred is held twice, and every Deferred held is pending.
\<close>

definition live :: "deferred_wormhole \<Rightarrow> bool" where
  "live s =
     (allocated s \<and> w_observer_result s = PNone \<and> w_closed_result s = PNone \<and>
      distinct (observers s) \<and>
      list_all (\<lambda>d. result_of (w_deferreds s) d = None) (observers s))"

definition pending :: "deferred_wormhole \<Rightarrow> nat \<Rightarrow> bool" where
  "pending s d = (result_of (w_deferreds s) d = None)"

subsection \<open>The three one-shot event categories\<close>

datatype category = Code | Verifier | Version

fun when_event :: "category \<Rightarrow> event" where
  "when_event Code = WhenCode"
| "when_event Verifier = WhenVerifier"
| "when_event Version = WhenVersion"

fun got_event :: "category \<Rightarrow> pyval \<Rightarrow> event" where
  "got_event Code v = GotCode v"
| "got_event Verifier v = GotVerifier v"
| "got_event Version v = GotVersion v"

fun is_got :: "category \<Rightarrow> event \<Rightarrow> bool" where
  "is_got Code (GotCode v) = True"
| "is_got Verifier (GotVerifier v) = True"
| "is_got Version (GotVersion v) = True"
| "is_got c e = False"

fun category_observers :: "category \<Rightarrow> deferred_wormhole \<Rightarrow> nat list" where
  "category_observers Code s = w_code_observers s"
| "category_observers Verifier s = w_verifier_observers s"
| "category_observers Version s = w_version_observers s"

fun category_value :: "category \<Rightarrow> deferred_wormhole \<Rightarrow> pyval" where
  "category_value Code s = w_code s"
| "category_value Verifier s = w_verifier s"
| "category_value Version s = w_version s"

text \<open>The observer list with which a call registers the Deferred it returns.\<close>

fun registry :: "event \<Rightarrow> deferred_wormhole \<Rightarrow> nat list" where
  "registry WhenCode s = w_code_observers s"
| "registry WhenVerifier s = w_verifier_observers s"
| "registry WhenVersion s = w_version_observers s"
| "registry WhenReceived s = w_received_observers s"
| "registry Close s = w_closed_observers s"
| "registry e s = []"

section \<open>The delegate-style facade: class \<^verbatim>\<open>_DelegatedWormhole\<close>\<close>

text \<open>Notifications sent to the application's delegate, in order.\<close>

datatype delegate_call =
    Wormhole_got_code pyval
  | Wormhole_got_verifier pyval
  | Wormhole_got_version pyval
  | Wormhole_received pyval
  | Wormhole_closed pyval

record delegated_wormhole =
  g_delegate :: "delegate_call list"
  g_key :: pyval
  g_boss :: "boss_call list"

definition delegated_init :: delegated_wormhole where
  "delegated_init = \<lparr> g_delegate = [], g_key = PNone, g_boss = [] \<rparr>"

definition delegated_derive_key ::
  "(pyval \<Rightarrow> 'b \<Rightarrow> pyval \<Rightarrow> error + 'k) \<Rightarrow> (pyval \<Rightarrow> 'b) \<Rightarrow>
   delegated_wormhole \<Rightarrow> pyval \<Rightarrow> pyval \<Rightarrow> error + 'k" where
  "delegated_derive_key kdf to_bytes s purpose len =
     (if \<not> is_text purpose then Inl TypeError
      else if \<not> truthy (g_key s) then Inl NoKeyError
      else kdf (g_key s) (to_bytes purpose) len)"

definition delegated_close :: "delegated_wormhole \<Rightarrow> delegated_wormhole" where
  "delegated_close s = s\<lparr>g_boss := g_boss s @ [Boss_close]\<rparr>"

definition delegated_send :: "delegated_wormhole \<Rightarrow> pyval \<Rightarrow> delegated_wormhole" where
  "delegated_send s plaintext = s\<lparr>g_boss := g_boss s @ [Boss_send plaintext]\<rparr>"

definition delegated_got_code :: "delegated_wormhole \<Rightarrow> pyval \<Rightarrow> delegated_wormhole" where
  "delegated_got_code s c = s\<lparr>g_delegate := g_delegate s @ [Wormhole_got_code c]\<rparr>"

definition delegated_got_key :: "delegated_wormhole \<Rightarrow> pyval \<Rightarrow> delegated_wormhole" where
  "delegated_got_key s k = s\<lparr>g_key := k\<rparr>"

definition delegated_got_verifier :: "delegated_wormhole \<Rightarrow> pyval \<Rightarrow> delegated_wormhole" where
  "delegated_got_verifier s v = s\<lparr>g_delegate := g_delegate s @ [Wormhole_got_verifier v]\<rparr>"

definition delegated_got_version :: "delegated_wormhole \<Rightarrow> pyval \<Rightarrow> delegated_wormhole" where
  "delegated_got_version s v = s\<lparr>g_delegate := g_delegate s @ [Wormhole_got_version v]\<rparr>"

definition delegated_received :: "delegated_wormhole \<Rightarrow> pyval \<Rightarrow> delegated_wormhole" where
  "delegated_received s plaintext =
     s\<lparr>g_delegate := g_delegate s @ [Wormhole_received plaintext]\<rparr>"

definition delegated_closed :: "delegated_wormhole \<Rightarrow> pyval \<Rightarrow> delegated_wormhole" where
  "delegated_closed s result = s\<lparr>g_delegate := g_delegate s @ [Wormhole_closed result]\<rparr>"

section \<open>The welcome evaluator: class \<^verbatim>\<open>_WelcomeHandler\<close>\<close>

text \<open>
  The third constructor argument is called on a fatal welcome. It is either a callable, whose
  result \<^verbatim>\<open>handle_welcome\<close> returns, or the constant \<^verbatim>\<open>NotImplemented\<close>, which \<^verbatim>\<open>create\<close>
  passes and which is not callable.
\<close>

datatype 'r callee = NotImplemented | Callable "pyval \<Rightarrow> string \<Rightarrow> 'r"

record 'r welcome_handler =
  ws_url :: string
  version_warning_displayed :: bool
  current_version :: string
  signal_error :: "'r callee"

definition WelcomeHandler :: "string \<Rightarrow> string \<Rightarrow> 'r callee \<Rightarrow> 'r welcome_handler" where
  "WelcomeHandler url current_version' signal_error' =
     \<lparr> ws_url = url, version_warning_displayed = False,
       current_version = current_version', signal_error = signal_error' \<rparr>"

text \<open>
  What a call prints on \<^verbatim>\<open>sys.stderr\<close>: the message of the day (the server's URL and the
  text, whose lines the source re-indents for display), or the two lines of the version
  warning.
\<close>

datatype printed =
    Print_motd string string
  | Print_version_warning
  | Print_server_claims pyval string

text \<open>
  \<^verbatim>\<open>"\n ".join(welcome["motd"].splitlines())\<close> is made for text. A value without
  \<^verbatim>\<open>splitlines\<close> raises \<^verbatim>\<open>AttributeError\<close> (under Python 3 a byte string fails in the
  \<^verbatim>\<open>join\<close>); the model has the one error for every \<^verbatim>\<open>motd\<close> that is not text.
\<close>

definition motd_output :: "string \<Rightarrow> (string \<rightharpoonup> pyval) \<Rightarrow> error + printed list" where
  "motd_output url welcome =
     (case welcome ''motd'' of
        None \<Rightarrow> Inr []
      | Some m \<Rightarrow> (case m of PStr text \<Rightarrow> Inr [Print_motd url text] | _ \<Rightarrow> Inl AttributeError))"

text \<open>The condition of the second \<^verbatim>\<open>if\<close> of \<^verbatim>\<open>handle_welcome\<close>.\<close>

definition version_differs :: "'r welcome_handler \<Rightarrow> (string \<rightharpoonup> pyval) \<Rightarrow> bool" where
  "version_differs h welcome =
     (case welcome ''current_cli_version'' of
        None \<Rightarrow> False
      | Some v \<Rightarrow>
          CHR ''-'' \<notin> set (current_version h) \<and> \<not> version_warning_displayed h \<and>
          v \<noteq> PStr (current_version h))"

definition version_output :: "'r welcome_handler \<Rightarrow> (string \<rightharpoonup> pyval) \<Rightarrow> printed list" where
  "version_output h welcome =
     (case welcome ''current_cli_version'' of
        None \<Rightarrow> []
      | Some v \<Rightarrow>
          if version_differs h welcome
          then [Print_version_warning, Print_server_claims v (current_version h)] else [])"

text \<open>
  The result: the object as the call left it, what the call printed, and the exception it
  raised or the value it returned (\<^verbatim>\<open>None\<close> when the welcome has no error).
\<close>

definition handle_welcome ::
  "'r welcome_handler \<Rightarrow> (string \<rightharpoonup> pyval) \<Rightarrow>
   'r welcome_handler \<times> printed list \<times> (error + 'r option)" where
  "handle_welcome h welcome =
     (case motd_output (ws_url h) welcome of
        Inl e \<Rightarrow> (h, [], Inl e)
      | Inr out \<Rightarrow>
          (let out' = out @ version_output h welcome;
               h' = (if version_differs h welcome
                     then h\<lparr>version_warning_displayed := True\<rparr> else h)
           in case welcome ''error'' of
                None \<Rightarrow> (h', out', Inr None)
              | Some err \<Rightarrow>
                  (case signal_error h' of
                     NotImplemented \<Rightarrow> (h', out', Inl TypeError_not_callable)
                   | Callable f \<Rightarrow> (h', out', Inr (Some (f (PWelcomeError err) ''unwelcome''))))))"

text \<open>
  The evaluator that \<^verbatim>\<open>create\<close> builds when no \<^verbatim>\<open>welcome_handler\<close> is passed. The package's
  \<^verbatim>\<open>__version__\<close> is absent from the sources and is the second parameter.
\<close>

definition create_welcome_handler :: "string \<Rightarrow> string \<Rightarrow> 'r welcome_handler" where
  "create_welcome_handler relay_url version = WelcomeHandler relay_url version NotImplemented"

text \<open>One evaluator receiving a sequence of welcomes; everything printed, in order.\<close>

fun deliver ::
  "'r welcome_handler \<Rightarrow> (string \<rightharpoonup> pyval) list \<Rightarrow> 'r welcome_handler \<times> printed list" where
  "deliver h [] = (h, [])"
| "deliver h (w # ws) =
     (case handle_welcome h w of
        (h', out, r) \<Rightarrow> (case deliver h' ws of (h'', out') \<Rightarrow> (h'', out @ out')))"

definition motd_is_text :: "(string \<rightharpoonup> pyval) \<Rightarrow> bool" where
  "motd_is_text welcome = (case welcome ''motd'' of None \<Rightarrow> True | Some m \<Rightarrow> is_text m)"

section \<open>The received-message queues\<close>

lemma step_queues:
  assumes "w_received_data s = [] \<or> w_received_observers s = []"
  shows "w_received_data (snd (step s e)) = [] \<or> w_received_observers (snd (step s e)) = []"
proof (cases e)
  case WhenReceived
  with assms show ?thesis
    by (auto simp: when_received_def defer_fail_def defer_succeed_def defer_Deferred_def
             split: list.splits)
next
  case (Received p)
  with assms show ?thesis
    by (auto simp: received_def split: list.splits sum.splits)
next
  case (Closed r)
  with assms show ?thesis
    by (auto simp: closed_def split: prod.splits)
qed (use assms in \<open>auto simp: when_code_def when_verifier_def when_version_def close_def
       allocate_code_def input_code_def set_code_def send_def got_code_def got_welcome_def
       got_key_def got_verifier_def got_version_def defer_fail_def defer_succeed_def
       defer_Deferred_def split: prod.splits option.splits\<close>)

lemma run_queues:
  "w_received_data s = [] \<or> w_received_observers s = [] \<Longrightarrow>
   w_received_data (run s es) = [] \<or> w_received_observers (run s es) = []"
proof (induction es arbitrary: s)
  case Nil
  then show ?case by simp
next
  case (Cons e es)
  from Cons.prems have "w_received_data (snd (step s e)) = [] \<or>
                        w_received_observers (snd (step s e)) = []"
    by (rule step_queues)
  then show ?case using Cons.IH by simp
qed

text \<open>
  Claim C7. In every state that a freshly constructed \<^verbatim>\<open>_DeferredWormhole\<close> reaches by
  a sequence of \<^verbatim>\<open>when_received()\<close> calls and \<^verbatim>\<open>received(payload)\<close> events, at most one of
  the queue of undelivered payloads and the queue of undelivered requests is non-empty.
  The sequence may hold every other call and event of the facade as well, raised
  exceptions included.
\<close>

theorem received_queues_exclusive:
  "w_received_data (run init es) = [] \<or> w_received_observers (run init es) = []"
proof -
  have "w_received_data init = [] \<or> w_received_observers init = []"
    by (simp add: init_def)
  then show ?thesis by (rule run_queues)
qed

section \<open>Open sessions are live\<close>

text \<open>
  Until \<^verbatim>\<open>closed\<close> is delivered every observer list holds pending Deferreds only, and no
  Deferred twice: no call and no event of an open session raises.
\<close>

lemma result_of_append:
  "result_of (h\<lparr>fired := fired h @ xs\<rparr>) d =
     (case result_of h d of None \<Rightarrow> map_of xs d | Some v \<Rightarrow> Some v)"
  by (simp add: result_of_def map_add_def)

lemma result_of_None: "result_of h d = None \<longleftrightarrow> d \<notin> fst ` set (fired h)"
  by (simp add: result_of_def map_of_eq_None_iff)

lemma callback_each_pending:
  "distinct ds \<Longrightarrow> list_all (\<lambda>d. result_of h d = None) ds \<Longrightarrow>
   callback_each h ds v = (None, h\<lparr>fired := fired h @ map (\<lambda>d. (d, v)) ds\<rparr>)"
proof (induction ds arbitrary: h)
  case Nil
  then show ?case by simp
next
  case (Cons d ds)
  let ?h = "h\<lparr>fired := fired h @ [(d, v)]\<rparr>"
  from Cons.prems have cb: "callback h d v = Inr ?h"
    by (simp add: callback_def)
  from Cons.prems have "list_all (\<lambda>x. result_of ?h x = None) ds"
    by (auto simp: list_all_iff result_of_append)
  with Cons.prems Cons.IH[of ?h]
  have "callback_each ?h ds v = (None, ?h\<lparr>fired := fired ?h @ map (\<lambda>d. (d, v)) ds\<rparr>)"
    by simp
  with cb show ?case by simp
qed

lemma callback_each_append:
  "callback_each h (xs @ ys) v = and_then (callback_each h xs v) (\<lambda>h'. callback_each h' ys v)"
  by (induction xs arbitrary: h) (auto simp: and_then_def split: sum.splits)

lemma live_iff:
  "live s \<longleftrightarrow>
     distinct (map fst (fired (w_deferreds s))) \<and>
     (\<forall>d\<in>fst ` set (fired (w_deferreds s)). d < next_id (w_deferreds s)) \<and>
     (\<forall>d\<in>set (observers s). d < next_id (w_deferreds s) \<and> d \<notin> fst ` set (fired (w_deferreds s))) \<and>
     w_observer_result s = PNone \<and> w_closed_result s = PNone \<and>
     distinct (observers s)"
  by (auto simp: live_def allocated_def heap_ok_def list_all_iff result_of_None)

lemma live_insert:
  assumes "live s" "observers s = xs @ ys"
    "observers s' = xs @ [next_id (w_deferreds s)] @ ys"
    "w_deferreds s' = (w_deferreds s)\<lparr>next_id := Suc (next_id (w_deferreds s))\<rparr>"
    "w_observer_result s' = w_observer_result s" "w_closed_result s' = w_closed_result s"
  shows "live s'"
  using assms unfolding live_iff by (auto simp: less_Suc_eq)

lemma live_succeed:
  assumes "live s" "observers s' = observers s"
    "w_deferreds s' = (w_deferreds s)\<lparr>next_id := Suc (next_id (w_deferreds s)),
        fired := fired (w_deferreds s) @ [(next_id (w_deferreds s), v)]\<rparr>"
    "w_observer_result s' = w_observer_result s" "w_closed_result s' = w_closed_result s"
  shows "live s'"
  using assms unfolding live_iff by (auto simp: less_Suc_eq)

lemma live_remove:
  assumes "live s" "observers s = xs @ ks @ ys"
    "observers s' = xs @ ys"
    "w_deferreds s' = (w_deferreds s)\<lparr>fired := fired (w_deferreds s) @ map (\<lambda>d. (d, v)) ks\<rparr>"
    "w_observer_result s' = w_observer_result s" "w_closed_result s' = w_closed_result s"
  shows "live s'"
  using assms unfolding live_iff by (auto simp: comp_def image_iff)

lemma live_same:
  assumes "live s" "observers s' = observers s" "w_deferreds s' = w_deferreds s"
    "w_observer_result s' = w_observer_result s" "w_closed_result s' = w_closed_result s"
  shows "live s'"
  using assms unfolding live_iff by simp


lemma live_results: "live s \<Longrightarrow> w_observer_result s = PNone \<and> w_closed_result s = PNone"
  by (simp add: live_def)

lemma truthy_PNone: "v = PNone \<Longrightarrow> \<not> truthy v"
  by simp

lemma live_when_code: assumes "live s" shows "live (snd (when_code s))"
proof (cases "w_code s = PNone")
  case True
  show ?thesis
    by (rule live_insert[OF assms, where xs = "w_code_observers s"
          and ys = "w_verifier_observers s @ w_version_observers s @
                    w_received_observers s @ w_closed_observers s"])
       (use True live_results[OF assms] in
         \<open>simp_all add: when_code_def defer_Deferred_def observers_def\<close>)
next
  case False
  show ?thesis
    by (rule live_succeed[OF assms, where v = "w_code s"])
       (use False live_results[OF assms] in
         \<open>simp_all add: when_code_def defer_succeed_def observers_def\<close>)
qed

lemma live_when_verifier: assumes "live s" shows "live (snd (when_verifier s))"
proof (cases "w_verifier s = PNone")
  case True
  show ?thesis
    by (rule live_insert[OF assms, where xs = "w_code_observers s @ w_verifier_observers s"
          and ys = "w_version_observers s @ w_received_observers s @ w_closed_observers s"])
       (use True live_results[OF assms] in
         \<open>simp_all add: when_verifier_def defer_Deferred_def observers_def\<close>)
next
  case False
  show ?thesis
    by (rule live_succeed[OF assms, where v = "w_verifier s"])
       (use False live_results[OF assms] in
         \<open>simp_all add: when_verifier_def defer_succeed_def observers_def\<close>)
qed

lemma live_when_version: assumes "live s" shows "live (snd (when_version s))"
proof (cases "w_version s = PNone")
  case True
  show ?thesis
    by (rule live_insert[OF assms,
          where xs = "w_code_observers s @ w_verifier_observers s @ w_version_observers s"
          and ys = "w_received_observers s @ w_closed_observers s"])
       (use True live_results[OF assms] in
         \<open>simp_all add: when_version_def defer_Deferred_def observers_def\<close>)
next
  case False
  show ?thesis
    by (rule live_succeed[OF assms, where v = "w_version s"])
       (use False live_results[OF assms] in
         \<open>simp_all add: when_version_def defer_succeed_def observers_def\<close>)
qed

lemma live_when_received: assumes "live s" shows "live (snd (when_received s))"
proof (cases "w_received_data s")
  case Nil
  show ?thesis
    by (rule live_insert[OF assms,
          where xs = "w_code_observers s @ w_verifier_observers s @ w_version_observers s @
                      w_received_observers s"
          and ys = "w_closed_observers s"])
       (use Nil live_results[OF assms] in
         \<open>simp_all add: when_received_def defer_Deferred_def observers_def\<close>)
next
  case (Cons p ps)
  show ?thesis
    by (rule live_succeed[OF assms, where v = p])
       (use Cons live_results[OF assms] in
         \<open>simp_all add: when_received_def defer_succeed_def observers_def\<close>)
qed

lemma live_close: assumes "live s" shows "live (snd (close s))"
  by (rule live_insert[OF assms,
        where xs = "w_code_observers s @ w_verifier_observers s @ w_version_observers s @
                    w_received_observers s @ w_closed_observers s"
        and ys = "[]"])
     (use live_results[OF assms] in \<open>simp_all add: close_def defer_Deferred_def observers_def\<close>)

lemma live_pending:
  assumes "live s"
  shows "distinct (observers s)"
    and "list_all (\<lambda>d. result_of (w_deferreds s) d = None) (observers s)"
  using assms by (simp_all add: live_def)

lemma got_code_live:
  assumes "live s"
  shows "got_code s c =
     (None, s\<lparr>w_code := c,
              w_deferreds := (w_deferreds s)\<lparr>fired := fired (w_deferreds s) @
                   map (\<lambda>d. (d, c)) (w_code_observers s)\<rparr>,
              w_code_observers := []\<rparr>)"
proof -
  from live_pending[OF assms]
  have "distinct (w_code_observers s)"
    "list_all (\<lambda>d. result_of (w_deferreds s) d = None) (w_code_observers s)"
    by (simp_all add: observers_def)
  then show ?thesis by (simp add: got_code_def callback_each_pending)
qed

lemma got_verifier_live:
  assumes "live s"
  shows "got_verifier s c =
     (None, s\<lparr>w_verifier := c,
              w_deferreds := (w_deferreds s)\<lparr>fired := fired (w_deferreds s) @
                   map (\<lambda>d. (d, c)) (w_verifier_observers s)\<rparr>,
              w_verifier_observers := []\<rparr>)"
proof -
  from live_pending[OF assms]
  have "distinct (w_verifier_observers s)"
    "list_all (\<lambda>d. result_of (w_deferreds s) d = None) (w_verifier_observers s)"
    by (simp_all add: observers_def)
  then show ?thesis by (simp add: got_verifier_def callback_each_pending)
qed

lemma got_version_live:
  assumes "live s"
  shows "got_version s c =
     (None, s\<lparr>w_version := c,
              w_deferreds := (w_deferreds s)\<lparr>fired := fired (w_deferreds s) @
                   map (\<lambda>d. (d, c)) (w_version_observers s)\<rparr>,
              w_version_observers := []\<rparr>)"
proof -
  from live_pending[OF assms]
  have "distinct (w_version_observers s)"
    "list_all (\<lambda>d. result_of (w_deferreds s) d = None) (w_version_observers s)"
    by (simp_all add: observers_def)
  then show ?thesis by (simp add: got_version_def callback_each_pending)
qed

lemma received_live:
  assumes "live s"
  shows "received s p =
     (case w_received_observers s of
        d # ds \<Rightarrow> (None, s\<lparr>w_received_observers := ds,
              w_deferreds := (w_deferreds s)\<lparr>fired := fired (w_deferreds s) @ [(d, p)]\<rparr>\<rparr>)
      | [] \<Rightarrow> (None, s\<lparr>w_received_data := w_received_data s @ [p]\<rparr>))"
proof -
  from live_pending[OF assms]
  have "list_all (\<lambda>d. result_of (w_deferreds s) d = None) (w_received_observers s)"
    by (simp add: observers_def)
  then show ?thesis by (auto simp: received_def callback_def split: list.splits)
qed

lemma live_got_code: assumes "live s" shows "live (snd (got_code s c))"
  by (rule live_remove[OF assms, where xs = "[]" and ks = "w_code_observers s" and v = c
        and ys = "w_verifier_observers s @ w_version_observers s @
                  w_received_observers s @ w_closed_observers s"])
     (simp_all add: got_code_live[OF assms] observers_def)

lemma live_got_verifier: assumes "live s" shows "live (snd (got_verifier s c))"
  by (rule live_remove[OF assms, where xs = "w_code_observers s"
        and ks = "w_verifier_observers s" and v = c
        and ys = "w_version_observers s @ w_received_observers s @ w_closed_observers s"])
     (simp_all add: got_verifier_live[OF assms] observers_def)

lemma live_got_version: assumes "live s" shows "live (snd (got_version s c))"
  by (rule live_remove[OF assms, where xs = "w_code_observers s @ w_verifier_observers s"
        and ks = "w_version_observers s" and v = c
        and ys = "w_received_observers s @ w_closed_observers s"])
     (simp_all add: got_version_live[OF assms] observers_def)

lemma live_received: assumes "live s" shows "live (snd (received s p))"
proof (cases "w_received_observers s")
  case Nil
  show ?thesis
    by (rule live_same[OF assms]) (simp_all add: received_live[OF assms] Nil observers_def)
next
  case (Cons d ds)
  show ?thesis
    by (rule live_remove[OF assms,
          where xs = "w_code_observers s @ w_verifier_observers s @ w_version_observers s"
          and ks = "[d]" and v = p and ys = "ds @ w_closed_observers s"])
       (simp_all add: received_live[OF assms] Cons observers_def)
qed

lemma live_step: assumes "live s" "\<not> is_Closed e" shows "live (snd (step s e))"
proof (cases e)
  case WhenCode then show ?thesis using live_when_code[OF assms(1)] by (simp add: split_beta)
next
  case WhenVerifier then show ?thesis using live_when_verifier[OF assms(1)] by (simp add: split_beta)
next
  case WhenVersion then show ?thesis using live_when_version[OF assms(1)] by (simp add: split_beta)
next
  case WhenReceived then show ?thesis using live_when_received[OF assms(1)] by (simp add: split_beta)
next
  case Close then show ?thesis using live_close[OF assms(1)] by (simp add: split_beta)
next
  case (GotCode v) then show ?thesis using live_got_code[OF assms(1)] by (simp add: split_beta)
next
  case (GotVerifier v) then show ?thesis using live_got_verifier[OF assms(1)] by (simp add: split_beta)
next
  case (GotVersion v) then show ?thesis using live_got_version[OF assms(1)] by (simp add: split_beta)
next
  case (Received v) then show ?thesis using live_received[OF assms(1)] by (simp add: split_beta)
next
  case (Closed r) with assms(2) show ?thesis by simp
next
  case (AllocateCode v) then show ?thesis
    by (simp add: allocate_code_def live_same[OF assms(1)] observers_def)
next
  case (InputCode v) then show ?thesis
    by (simp add: input_code_def live_same[OF assms(1)] observers_def)
next
  case (SetCode v) then show ?thesis
    by (simp add: set_code_def live_same[OF assms(1)] observers_def)
next
  case (Send v) then show ?thesis
    by (simp add: send_def live_same[OF assms(1)] observers_def)
next
  case (GotWelcome v) then show ?thesis
    by (simp add: got_welcome_def assms(1))
next
  case (GotKey v) then show ?thesis
    by (simp add: got_key_def live_same[OF assms(1)] observers_def)
qed

lemma live_no_exception:
  assumes "live s" "\<not> is_Closed e" shows "fst (step s e) \<noteq> Raised x"
  using assms(2)
  by (cases e)
     (simp_all add: got_code_live[OF assms(1)] got_verifier_live[OF assms(1)]
       got_version_live[OF assms(1)] received_live[OF assms(1)] raised_or_none_def
       split_beta split: list.splits)

lemma live_init: "live init"
  by (simp add: live_def allocated_def heap_ok_def init_def observers_def)

lemma open_session_Cons: "open_session (e # es) \<longleftrightarrow> \<not> is_Closed e \<and> open_session es"
  by (simp add: open_session_def)

lemma live_run: "live s \<Longrightarrow> open_session es \<Longrightarrow> live (run s es)"
  by (induction es arbitrary: s) (simp_all add: open_session_Cons live_step)

section \<open>Steps and sessions\<close>

lemma snd_step:
  "snd (step s WhenCode) = snd (when_code s)"
  "snd (step s WhenVerifier) = snd (when_verifier s)"
  "snd (step s WhenVersion) = snd (when_version s)"
  "snd (step s WhenReceived) = snd (when_received s)"
  "snd (step s Close) = snd (close s)"
  "snd (step s (GotCode v)) = snd (got_code s v)"
  "snd (step s (GotVerifier v)) = snd (got_verifier s v)"
  "snd (step s (GotVersion v)) = snd (got_version s v)"
  "snd (step s (Received v)) = snd (received s v)"
  "snd (step s (Closed v)) = snd (closed s v)"
  by (simp_all add: split_beta)

lemma fst_step:
  "fst (step s WhenCode) = Returned_Deferred (fst (when_code s))"
  "fst (step s WhenVerifier) = Returned_Deferred (fst (when_verifier s))"
  "fst (step s WhenVersion) = Returned_Deferred (fst (when_version s))"
  "fst (step s WhenReceived) = Returned_Deferred (fst (when_received s))"
  "fst (step s Close) = Returned_Deferred (fst (close s))"
  "fst (step s (GotCode v)) = raised_or_none (fst (got_code s v))"
  "fst (step s (GotVerifier v)) = raised_or_none (fst (got_verifier s v))"
  "fst (step s (GotVersion v)) = raised_or_none (fst (got_version s v))"
  "fst (step s (Received v)) = raised_or_none (fst (received s v))"
  "fst (step s (Closed v)) = raised_or_none (fst (closed s v))"
  by (simp_all add: split_beta)

lemma run_append: "run s (es @ es') = run (run s es) es'"
  by (induction es arbitrary: s) simp_all

lemma futures_append: "futures P s (es @ es') = futures P s es @ futures P (run s es) es'"
  by (induction es arbitrary: s) simp_all

lemma payloads_append: "payloads (es @ es') = payloads es @ payloads es'"
  by (induction es rule: payloads.induct) simp_all

lemma open_session_append:
  "open_session (es @ es') \<longleftrightarrow> open_session es \<and> open_session es'"
  by (simp add: open_session_def)

text \<open>the history of firings only grows\<close>

lemma callback_prefix: "callback h d v = Inr h' \<Longrightarrow> prefix (fired h) (fired h') \<and> next_id h' = next_id h"
  by (auto simp: callback_def split: if_splits)

lemma callback_each_prefix:
  "prefix (fired h) (fired (snd (callback_each h ds v))) \<and>
   next_id (snd (callback_each h ds v)) = next_id h"
proof (induction ds arbitrary: h)
  case Nil
  then show ?case by simp
next
  case (Cons d ds)
  show ?case
  proof (cases "callback h d v")
    case (Inl e)
    then show ?thesis by simp
  next
    case (Inr h')
    with callback_prefix[OF Inr] Cons.IH[of h'] show ?thesis
      by (auto intro: prefix_order.trans)
  qed
qed

lemma and_then_prefix:
  assumes "prefix (fired h) (fired (snd r)) \<and> next_id (snd r) = next_id h"
    and "\<And>h'. prefix (fired h') (fired (snd (f h'))) \<and> next_id (snd (f h')) = next_id h'"
  shows "prefix (fired h) (fired (snd (and_then r f))) \<and> next_id (snd (and_then r f)) = next_id h"
proof (cases r)
  case (Pair e h')
  show ?thesis
  proof (cases e)
    case None
    with Pair assms(1) assms(2)[of h'] show ?thesis
      by (auto simp: and_then_def intro: prefix_order.trans)
  next
    case (Some x)
    with Pair assms(1) show ?thesis by (simp add: and_then_def)
  qed
qed

lemma closed_prefix:
  "prefix (fired (w_deferreds s)) (fired (w_deferreds (snd (closed s r)))) \<and>
   next_id (w_deferreds (snd (closed s r))) = next_id (w_deferreds s)"
proof -
  obtain o1 c1 where oc: "closed_results r = (o1, c1)" by (cases "closed_results r")
  let ?r = "and_then (and_then (and_then
                  (errback_each (w_deferreds s) (w_verifier_observers s) o1)
                  (\<lambda>h. errback_each h (w_version_observers s) o1))
                  (\<lambda>h. errback_each h (w_received_observers s) o1))
                  (\<lambda>h. callback_each h (w_closed_observers s) c1)"
  have "prefix (fired (w_deferreds s)) (fired (snd ?r)) \<and> next_id (snd ?r) = next_id (w_deferreds s)"
    by (intro and_then_prefix) (simp_all add: errback_each_def callback_each_prefix)
  then show ?thesis by (simp add: closed_def oc split_beta)
qed

lemma step_prefix:
  "prefix (fired (w_deferreds s)) (fired (w_deferreds (snd (step s e)))) \<and>
   next_id (w_deferreds s) \<le> next_id (w_deferreds (snd (step s e)))"
proof (cases e)
  case (GotCode v)
  with callback_each_prefix[of "w_deferreds s" "w_code_observers s" v] show ?thesis
    by (auto simp: got_code_def split_beta split: option.splits)
next
  case (GotVerifier v)
  with callback_each_prefix[of "w_deferreds s" "w_verifier_observers s" v] show ?thesis
    by (auto simp: got_verifier_def split_beta split: option.splits)
next
  case (GotVersion v)
  with callback_each_prefix[of "w_deferreds s" "w_version_observers s" v] show ?thesis
    by (auto simp: got_version_def split_beta split: option.splits)
next
  case (Received v)
  then show ?thesis
    by (auto simp: received_def split_beta dest: callback_prefix split: list.splits sum.splits)
next
  case (Closed r)
  with closed_prefix[of s r] show ?thesis by (simp add: split_beta)
qed (simp_all add: when_code_def when_verifier_def when_version_def when_received_def close_def
       defer_fail_def defer_succeed_def defer_Deferred_def allocate_code_def input_code_def
       set_code_def send_def got_welcome_def got_key_def split: list.splits)

lemma run_prefix:
  "prefix (fired (w_deferreds s)) (fired (w_deferreds (run s es))) \<and>
   next_id (w_deferreds s) \<le> next_id (w_deferreds (run s es))"
proof (induction es arbitrary: s)
  case Nil
  then show ?case by simp
next
  case (Cons e es)
  from step_prefix[of s e] Cons.IH[of "snd (step s e)"] show ?case
    by (auto intro: prefix_order.trans)
qed

lemma prefix_result:
  "prefix (fired h) (fired h') \<Longrightarrow> result_of h d = Some v \<Longrightarrow> result_of h' d = Some v"
  by (auto simp: prefix_def result_of_def)

lemma run_result:
  "result_of (w_deferreds s) d = Some v \<Longrightarrow> result_of (w_deferreds (run s es)) d = Some v"
  using run_prefix[of s es] by (blast intro: prefix_result)

lemma step_result:
  "result_of (w_deferreds s) d = Some v \<Longrightarrow> result_of (w_deferreds (snd (step s e))) d = Some v"
  using step_prefix[of s e] by (blast intro: prefix_result)

lemmas facade_defs =
  when_code_def when_verifier_def when_version_def when_received_def close_def
  got_code_def got_verifier_def got_version_def received_def closed_def closed_results_def
  got_key_def got_welcome_def allocate_code_def input_code_def set_code_def send_def
  defer_fail_def defer_succeed_def defer_Deferred_def callback_def errback_each_def
  and_then_def result_of_def raised_or_none_def init_def

section \<open>Key derivation\<close>

lemma derive_key_not_text:
  "\<not> is_text purpose \<Longrightarrow> derive_key kdf to_bytes s purpose len = Inl TypeError"
  by (simp add: derive_key_def)

lemma derive_key_no_key:
  "is_text purpose \<Longrightarrow> \<not> truthy (w_key s) \<Longrightarrow>
   derive_key kdf to_bytes s purpose len = Inl NoKeyError"
  by (simp add: derive_key_def)

lemma derive_key_fresh:
  "is_text purpose \<Longrightarrow> derive_key kdf to_bytes init purpose len = Inl NoKeyError"
  by (simp add: derive_key_def init_def)

lemma closed_keeps_key: "w_key (snd (closed s r)) = w_key s"
  by (simp add: closed_def split_beta)

text \<open>
  Claim C2. \<^verbatim>\<open>derive_key\<close> raises \<^verbatim>\<open>TypeError\<close> for a purpose that is not text and
  \<^verbatim>\<open>NoKeyError\<close> while no key has been delivered (the three lemmas above). The claim also
  requires \<^verbatim>\<open>NoKeyError\<close> after \<^verbatim>\<open>closed\<close> has fired, as the method's docstring does
  (``cannot be called ... after close() was called''). The code does not do that:
  \<^verbatim>\<open>closed\<close> leaves \<^verbatim>\<open>self._key\<close> as it was, and after \<^verbatim>\<open>got_key(b"key")\<close> and
  \<^verbatim>\<open>closed("happy")\<close> a call of \<^verbatim>\<open>derive_key("purpose", 32)\<close> returns what the key
  derivation function returns for the stored key.
\<close>

theorem derive_key_after_closed:
  "w_key (snd (closed (got_key s k) r)) = k \<and>
   derive_key kdf to_bytes
      (snd (closed (got_key init (PBytes ''key'')) (PStr ''happy''))) (PStr ''purpose'') (PInt 32) =
     kdf (PBytes ''key'') (to_bytes (PStr ''purpose'')) (PInt 32)"
  by (simp add: closed_keeps_key derive_key_def got_key_def)

text \<open>
  Claim C10. In both facades \<^verbatim>\<open>derive_key\<close> tests the truthiness of the stored key: after
  \<^verbatim>\<open>got_key(k)\<close> with a falsy \<open>k\<close> (the empty byte string, for one) it raises
  \<^verbatim>\<open>NoKeyError\<close> for a text purpose, and it behaves in every case as it does on an object
  whose key is \<^verbatim>\<open>None\<close>.
\<close>

theorem falsy_key_is_no_key:
  assumes "\<not> truthy k"
  shows "derive_key kdf to_bytes (got_key s k) purpose len =
           (if is_text purpose then Inl NoKeyError else Inl TypeError) \<and>
         derive_key kdf to_bytes (got_key s k) purpose len =
           derive_key kdf to_bytes (s\<lparr>w_key := PNone\<rparr>) purpose len \<and>
         delegated_derive_key kdf to_bytes (delegated_got_key g k) purpose len =
           (if is_text purpose then Inl NoKeyError else Inl TypeError) \<and>
         delegated_derive_key kdf to_bytes (delegated_got_key g k) purpose len =
           delegated_derive_key kdf to_bytes (g\<lparr>g_key := PNone\<rparr>) purpose len"
  using assms
  by (simp add: derive_key_def delegated_derive_key_def got_key_def delegated_got_key_def)

text \<open>
  Claim C10 at the empty byte string, on a fresh facade of either kind.
\<close>

theorem falsy_key_is_no_key_witness:
  "\<not> truthy (PBytes []) \<and>
   derive_key (\<lambda>k p n. Inr k) (\<lambda>p. p) (got_key init (PBytes [])) (PStr ''purpose'') (PInt 32) =
     Inl NoKeyError \<and>
   delegated_derive_key (\<lambda>k p n. Inr k) (\<lambda>p. p)
      (delegated_got_key delegated_init (PBytes [])) (PStr ''purpose'') (PInt 32) =
     Inl NoKeyError"
  using falsy_key_is_no_key[of "PBytes []" "\<lambda>k p n. Inr k" "\<lambda>p. p" init "PStr ''purpose''"
      "PInt 32" delegated_init]
  by simp

section \<open>Close fan-out at concrete sessions\<close>

text \<open>
  Claim C1. When \<^verbatim>\<open>closed\<close> fires with an exception, every pending future of the four
  \<^verbatim>\<open>when_*\<close> calls should fail with that error. \<^verbatim>\<open>closed\<close> has no loop over
  \<^verbatim>\<open>self._code_observers\<close>: in the session \<^verbatim>\<open>when_code(); closed(Exception("boom"))\<close> the
  future that \<^verbatim>\<open>when_code\<close> returned (Deferred 0) is still pending after \<^verbatim>\<open>closed\<close> has
  returned normally, while in the same session with \<^verbatim>\<open>when_verifier\<close> the future has
  failed with the error. The rest of the claim holds on the code: the pending futures of the
  other three calls fail with the error and later calls of all four fail with it (lemmas
  \<open>pending_futures_fail\<close> and \<open>when_after_closed\<close> in the last section).
\<close>

theorem pending_code_future_dropped:
  "fst (step init WhenCode) = Returned_Deferred 0 \<and>
   fst (step (run init [WhenCode]) (Closed (PException ''boom''))) = Returned_None \<and>
   result_of (w_deferreds (run init [WhenCode, Closed (PException ''boom'')])) 0 = None \<and>
   fst (step init WhenVerifier) = Returned_Deferred 0 \<and>
   result_of (w_deferreds (run init [WhenVerifier, Closed (PException ''boom'')])) 0 =
     Some (PFailure (PException ''boom''))"
  by (simp add: facade_defs)

text \<open>
  Claim C3, as stated, fails: two \<^verbatim>\<open>close()\<close> calls made before \<^verbatim>\<open>closed\<close> fires call
  \<^verbatim>\<open>self._boss.close()\<close> twice.
\<close>

theorem close_twice_in_flight_counterexample:
  "w_boss (run init [Close, Close]) = [Boss_close, Boss_close]"
  by (simp add: facade_defs)

text \<open>
  Claim C4. After \<^verbatim>\<open>closed(r)\<close> with a result that is not an exception, every later
  \<^verbatim>\<open>close()\<close> should return a future resolved with \<open>r\<close>. \<^verbatim>\<open>close\<close> tests the truthiness
  of \<^verbatim>\<open>self._closed_result\<close>, where the \<^verbatim>\<open>when_*\<close> calls test \<^verbatim>\<open>self._observer_result\<close>
  against \<^verbatim>\<open>None\<close>. In the session \<^verbatim>\<open>closed(""); close()\<close> the result is stored, yet
  \<^verbatim>\<open>close()\<close> returns a new Deferred that is pending, registers it with observers that
  \<^verbatim>\<open>closed\<close> has already served, and calls \<^verbatim>\<open>self._boss.close()\<close>, against the comment on
  that line (``only need to close if it wasn't already''). In the same state
  \<^verbatim>\<open>when_verifier()\<close> fails at once with \<^verbatim>\<open>WormholeClosed("")\<close>. The rest of the claim holds on
  the code (lemma \<open>graceful_close\<close> below).
\<close>

theorem close_after_falsy_result:
  "\<not> is_exception (PStr []) \<and>
   fst (step init (Closed (PStr []))) = Returned_None \<and>
   w_closed_result (run init [Closed (PStr [])]) = PStr [] \<and>
   fst (step (run init [Closed (PStr [])]) Close) = Returned_Deferred 0 \<and>
   result_of (w_deferreds (run init [Closed (PStr []), Close])) 0 = None \<and>
   w_closed_observers (run init [Closed (PStr []), Close]) = [0] \<and>
   w_boss (run init [Closed (PStr []), Close]) = [Boss_close] \<and>
   fst (step (run init [Closed (PStr [])]) WhenVerifier) = Returned_Deferred 0 \<and>
   result_of (w_deferreds (run init [Closed (PStr []), WhenVerifier])) 0 =
     Some (PFailure (PWormholeClosed (PStr [])))"
  by (simp add: facade_defs)

section \<open>A fatal welcome\<close>

text \<open>
  Claim C9. A welcome with an \<^verbatim>\<open>error\<close> field should make the evaluator signal a
  \<^verbatim>\<open>WelcomeError\<close>, also for the default evaluator of \<^verbatim>\<open>create\<close>. That evaluator is built
  with \<^verbatim>\<open>signal_error = NotImplemented\<close>, so on the welcome \<^verbatim>\<open>{"error": err}\<close> the call
  \<^verbatim>\<open>self._signal_error(WelcomeError(err), "unwelcome")\<close> raises a \<^verbatim>\<open>TypeError\<close> (the object is
  not callable) and nothing is signalled. With a callable the error is signalled (lemma
  \<open>handle_welcome_signals\<close> below).
\<close>

theorem default_handler_cannot_signal:
  "snd (snd (handle_welcome (create_welcome_handler relay_url version)
       (Map.empty(''error'' \<mapsto> err)))) = Inl TypeError_not_callable"
  by (simp add: handle_welcome_def create_welcome_handler_def WelcomeHandler_def
       motd_output_def Let_def)

lemma handle_welcome_signals:
  assumes "motd_is_text welcome" "welcome ''error'' = Some err" "signal_error h = Callable f"
  shows "snd (snd (handle_welcome h welcome)) = Inr (Some (f (PWelcomeError err) ''unwelcome''))"
  using assms
  by (auto simp: handle_welcome_def motd_is_text_def motd_output_def Let_def
           split: option.splits pyval.splits)

section \<open>The version warning of the welcome evaluator\<close>

lemma handle_welcome_constants:
  "current_version (fst (handle_welcome h w)) = current_version h \<and>
   ws_url (fst (handle_welcome h w)) = ws_url h \<and>
   signal_error (fst (handle_welcome h w)) = signal_error h"
  by (simp add: handle_welcome_def Let_def split: sum.splits option.splits callee.splits)

lemma version_output_count:
  "count_list (version_output h w) Print_version_warning = (if version_differs h w then 1 else 0)"
  by (simp add: version_output_def version_differs_def split: option.splits)

lemma motd_output_count:
  "motd_output url w = Inr out \<Longrightarrow> count_list out Print_version_warning = 0"
  by (auto simp: motd_output_def split: option.splits pyval.splits)

lemma motd_output_text: "motd_is_text w \<Longrightarrow> \<exists>out. motd_output url w = Inr out"
  by (auto simp: motd_output_def motd_is_text_def split: option.splits pyval.splits)

lemma count_list_append: "count_list (xs @ ys) x = count_list xs x + count_list ys x"
  by (induction xs) simp_all

text \<open>what one call prints of the warning, and what it does to the latch\<close>

lemma handle_welcome_count:
  "count_list (fst (snd (handle_welcome h w))) Print_version_warning =
     (case motd_output (ws_url h) w of
        Inl e \<Rightarrow> 0
      | Inr out \<Rightarrow> if version_differs h w then 1 else 0)"
  by (auto simp: handle_welcome_def Let_def count_list_append version_output_count
        motd_output_count split: sum.splits option.splits callee.splits)

lemma handle_welcome_latch:
  "version_warning_displayed (fst (handle_welcome h w)) =
     (version_warning_displayed h \<or>
      (case motd_output (ws_url h) w of Inl e \<Rightarrow> False | Inr out \<Rightarrow> version_differs h w))"
  by (auto simp: handle_welcome_def Let_def split: sum.splits option.splits callee.splits)

lemma version_differs_latched: "version_warning_displayed h \<Longrightarrow> \<not> version_differs h w"
  by (simp add: version_differs_def split: option.splits)

lemma count_list_pos: "0 < count_list xs x \<longleftrightarrow> x \<in> set xs"
  by (induction xs) auto

lemma deliver_latch:
  "version_warning_displayed (fst (deliver h ws)) =
     (version_warning_displayed h \<or> Print_version_warning \<in> set (snd (deliver h ws)))"
proof (induction ws arbitrary: h)
  case Nil
  then show ?case by simp
next
  case (Cons w ws)
  have "Print_version_warning \<in> set (fst (snd (handle_welcome h w))) =
          (case motd_output (ws_url h) w of Inl e \<Rightarrow> False | Inr out \<Rightarrow> version_differs h w)"
    using handle_welcome_count[of h w] count_list_pos[of "fst (snd (handle_welcome h w))"
        Print_version_warning]
    by (auto split: sum.splits if_splits)
  with Cons.IH[of "fst (handle_welcome h w)"] handle_welcome_latch[of h w]
  show ?case by (auto simp: split_beta)
qed

lemma deliver_count:
  "count_list (snd (deliver h ws)) Print_version_warning \<le>
     (if version_warning_displayed h then 0 else 1)"
proof (induction ws arbitrary: h)
  case Nil
  then show ?case by simp
next
  case (Cons w ws)
  from Cons.IH[of "fst (handle_welcome h w)"] handle_welcome_latch[of h w]
    handle_welcome_count[of h w] version_differs_latched[of h w]
  show ?case
    by (auto simp: split_beta count_list_append split: sum.splits if_splits)
qed

lemma deliver_constants:
  "current_version (fst (deliver h ws)) = current_version h"
  by (induction ws arbitrary: h) (simp_all add: split_beta handle_welcome_constants)

lemma deliver_append:
  "deliver h (ws @ ws') =
     (fst (deliver (fst (deliver h ws)) ws'),
      snd (deliver h ws) @ snd (deliver (fst (deliver h ws)) ws'))"
  by (induction ws arbitrary: h) (simp_all add: split_beta)

text \<open>
  Claim C8. Take one evaluator, constructed with local version \<open>ver\<close>, that has received
  the welcomes \<open>ws\<close>, and let it receive \<open>w\<close> (whose \<^verbatim>\<open>motd\<close>, if present, is text, as the
  welcome schema says). The call prints the version warning exactly when \<open>w\<close> has a
  \<^verbatim>\<open>current_cli_version\<close>, \<open>ver\<close> contains no \<^verbatim>\<open>-\<close>, the evaluator has not printed the
  warning before, and the advertised version differs from \<open>ver\<close>. Over the whole sequence
  the warning is printed at most once, and a latch that is set stays set.
\<close>

theorem version_warning_once:
  assumes "motd_is_text w"
  shows
    "(Print_version_warning \<in>
        set (fst (snd (handle_welcome (fst (deliver (WelcomeHandler url ver sig) ws)) w)))) =
       (w ''current_cli_version'' \<noteq> None \<and> CHR ''-'' \<notin> set ver \<and>
        Print_version_warning \<notin> set (snd (deliver (WelcomeHandler url ver sig) ws)) \<and>
        w ''current_cli_version'' \<noteq> Some (PStr ver)) \<and>
     count_list (snd (deliver (WelcomeHandler url ver sig) (ws @ [w]))) Print_version_warning \<le> 1 \<and>
     (version_warning_displayed (fst (deliver (WelcomeHandler url ver sig) ws)) \<longrightarrow>
      version_warning_displayed
        (fst (handle_welcome (fst (deliver (WelcomeHandler url ver sig) ws)) w)))"
proof -
  let ?H = "WelcomeHandler url ver sig"
  let ?h = "fst (deliver ?H ws)"
  have latch: "version_warning_displayed ?h =
                 (Print_version_warning \<in> set (snd (deliver ?H ws)))"
    using deliver_latch[of ?H ws] by (simp add: WelcomeHandler_def)
  have ver: "current_version ?h = ver"
    by (simp add: deliver_constants WelcomeHandler_def)
  from motd_output_text[OF assms] obtain out where out: "motd_output (ws_url ?h) w = Inr out"
    by blast
  have "(Print_version_warning \<in> set (fst (snd (handle_welcome ?h w)))) = version_differs ?h w"
    using handle_welcome_count[of ?h w]
      count_list_pos[of "fst (snd (handle_welcome ?h w))" Print_version_warning]
    by (auto simp: out split: if_splits)
  also have "\<dots> = (w ''current_cli_version'' \<noteq> None \<and> CHR ''-'' \<notin> set ver \<and>
        Print_version_warning \<notin> set (snd (deliver ?H ws)) \<and>
        w ''current_cli_version'' \<noteq> Some (PStr ver))"
    by (auto simp: version_differs_def ver latch split: option.splits)
  finally have a: "(Print_version_warning \<in> set (fst (snd (handle_welcome ?h w)))) =
      (w ''current_cli_version'' \<noteq> None \<and> CHR ''-'' \<notin> set ver \<and>
        Print_version_warning \<notin> set (snd (deliver ?H ws)) \<and>
        w ''current_cli_version'' \<noteq> Some (PStr ver))" .
  have b: "count_list (snd (deliver ?H (ws @ [w]))) Print_version_warning \<le> 1"
    using deliver_count[of ?H "ws @ [w]"] by (simp add: WelcomeHandler_def)
  have c: "version_warning_displayed ?h \<longrightarrow> version_warning_displayed (fst (handle_welcome ?h w))"
    by (simp add: handle_welcome_latch)
  from a b c show ?thesis by blast
qed

text \<open>
  Claim C8 at the spec's scenario: local version 0.9.1, the welcome
  \<^verbatim>\<open>{"current_cli_version": "0.9.0"}\<close> delivered twice. The first delivery warns, the second
  does not, and the warning is printed once in all.
\<close>

theorem version_warning_once_witness:
  "motd_is_text (Map.empty(''current_cli_version'' \<mapsto> PStr ''0.9.0'')) \<and>
   Print_version_warning \<in> set (fst (snd (handle_welcome
       (fst (deliver (WelcomeHandler ''ws://relay'' ''0.9.1'' (NotImplemented :: unit callee)) []))
       (Map.empty(''current_cli_version'' \<mapsto> PStr ''0.9.0''))))) \<and>
   Print_version_warning \<notin> set (fst (snd (handle_welcome
       (fst (deliver (WelcomeHandler ''ws://relay'' ''0.9.1'' (NotImplemented :: unit callee))
          [Map.empty(''current_cli_version'' \<mapsto> PStr ''0.9.0'')]))
       (Map.empty(''current_cli_version'' \<mapsto> PStr ''0.9.0''))))) \<and>
   count_list (snd (deliver (WelcomeHandler ''ws://relay'' ''0.9.1'' (NotImplemented :: unit callee))
       [Map.empty(''current_cli_version'' \<mapsto> PStr ''0.9.0''),
        Map.empty(''current_cli_version'' \<mapsto> PStr ''0.9.0'')])) Print_version_warning = 1"
  using version_warning_once[of "Map.empty(''current_cli_version'' \<mapsto> PStr ''0.9.0'')"
      "''ws://relay''" "''0.9.1''" "NotImplemented :: unit callee" "[]"]
  by (simp add: handle_welcome_def WelcomeHandler_def motd_output_def version_output_def
        version_differs_def motd_is_text_def Let_def)

section \<open>Every state is allocated\<close>

lemma heap_ok_iff:
  "heap_ok h \<longleftrightarrow> distinct (map fst (fired h)) \<and> (\<forall>d\<in>fst ` set (fired h). d < next_id h)"
  by (auto simp: heap_ok_def list_all_iff)

lemma callback_heap_ok:
  "heap_ok h \<Longrightarrow> d < next_id h \<Longrightarrow> callback h d v = Inr h' \<Longrightarrow> heap_ok h'"
  by (fastforce simp: callback_def heap_ok_iff result_of_None split: if_splits)

lemma callback_each_heap_ok:
  "heap_ok h \<Longrightarrow> \<forall>d\<in>set ds. d < next_id h \<Longrightarrow> heap_ok (snd (callback_each h ds v))"
proof (induction ds arbitrary: h)
  case Nil
  then show ?case by simp
next
  case (Cons d ds)
  show ?case
  proof (cases "callback h d v")
    case (Inl e)
    with Cons.prems show ?thesis by simp
  next
    case (Inr h')
    from Cons.prems Inr have "heap_ok h'" by (auto intro: callback_heap_ok)
    moreover from callback_prefix[OF Inr] Cons.prems have "\<forall>x\<in>set ds. x < next_id h'" by simp
    ultimately show ?thesis using Cons.IH[of h'] Inr by simp
  qed
qed

lemma and_then_assoc:
  "and_then (and_then r f) g = and_then r (\<lambda>h. and_then (f h) g)"
  by (cases r) (simp add: and_then_def split: option.splits)

lemma and_then_heap_ok:
  assumes "heap_ok (snd r) \<and> next_id (snd r) = n"
    and "\<And>h'. heap_ok h' \<Longrightarrow> next_id h' = n \<Longrightarrow> heap_ok (snd (f h')) \<and> next_id (snd (f h')) = n"
  shows "heap_ok (snd (and_then r f)) \<and> next_id (snd (and_then r f)) = n"
  using assms by (cases r) (auto simp: and_then_def split: option.splits)

lemma allocated_iff:
  "allocated s \<longleftrightarrow> heap_ok (w_deferreds s) \<and> (\<forall>d\<in>set (observers s). d < next_id (w_deferreds s))"
  by (simp add: allocated_def list_all_iff)

lemma heap_ok_succeed:
  "heap_ok h \<Longrightarrow> heap_ok (h\<lparr>next_id := Suc (next_id h), fired := fired h @ [(next_id h, v)]\<rparr>)"
  by (auto simp: heap_ok_iff less_Suc_eq)

lemma heap_ok_Deferred: "heap_ok h \<Longrightarrow> heap_ok (h\<lparr>next_id := Suc (next_id h)\<rparr>)"
  by (auto simp: heap_ok_iff less_Suc_eq)

lemma set_observers:
  "set (observers s) = set (w_code_observers s) \<union> set (w_verifier_observers s) \<union>
     set (w_version_observers s) \<union> set (w_received_observers s) \<union> set (w_closed_observers s)"
  by (auto simp: observers_def)

lemma allocated_when:
  assumes "allocated s"
  shows "allocated (snd (when_code s))" "allocated (snd (when_verifier s))"
    "allocated (snd (when_version s))" "allocated (snd (when_received s))"
    "allocated (snd (close s))"
  using assms
  by (auto simp: allocated_iff set_observers when_code_def when_verifier_def when_version_def
        when_received_def close_def defer_fail_def defer_succeed_def defer_Deferred_def
        heap_ok_succeed heap_ok_Deferred less_Suc_eq split: list.splits)

lemma allocated_got_code: assumes "allocated s" shows "allocated (snd (got_code s v))"
proof -
  from assms have "heap_ok (snd (callback_each (w_deferreds s) (w_code_observers s) v))"
    by (intro callback_each_heap_ok) (auto simp: allocated_iff set_observers)
  with assms callback_each_prefix[of "w_deferreds s" "w_code_observers s" v] show ?thesis
    by (auto simp: allocated_iff set_observers got_code_def split_beta split: option.splits)
qed

lemma allocated_got_verifier: assumes "allocated s" shows "allocated (snd (got_verifier s v))"
proof -
  from assms have "heap_ok (snd (callback_each (w_deferreds s) (w_verifier_observers s) v))"
    by (intro callback_each_heap_ok) (auto simp: allocated_iff set_observers)
  with assms callback_each_prefix[of "w_deferreds s" "w_verifier_observers s" v] show ?thesis
    by (auto simp: allocated_iff set_observers got_verifier_def split_beta split: option.splits)
qed

lemma allocated_got_version: assumes "allocated s" shows "allocated (snd (got_version s v))"
proof -
  from assms have "heap_ok (snd (callback_each (w_deferreds s) (w_version_observers s) v))"
    by (intro callback_each_heap_ok) (auto simp: allocated_iff set_observers)
  with assms callback_each_prefix[of "w_deferreds s" "w_version_observers s" v] show ?thesis
    by (auto simp: allocated_iff set_observers got_version_def split_beta split: option.splits)
qed

lemma allocated_received: assumes "allocated s" shows "allocated (snd (received s p))"
proof (cases "w_received_observers s")
  case Nil
  with assms show ?thesis by (simp add: allocated_iff set_observers received_def)
next
  case (Cons d ds)
  show ?thesis
  proof (cases "callback (w_deferreds s) d p")
    case (Inl e)
    with assms Cons show ?thesis by (auto simp: allocated_iff set_observers received_def)
  next
    case (Inr h')
    from assms Cons have "d < next_id (w_deferreds s)" by (simp add: allocated_iff set_observers)
    with assms Inr have "heap_ok h'" by (auto simp: allocated_iff intro: callback_heap_ok)
    with assms Cons Inr callback_prefix[OF Inr] show ?thesis
      by (auto simp: allocated_iff set_observers received_def)
  qed
qed

lemma allocated_closed: assumes "allocated s" shows "allocated (snd (closed s r))"
proof -
  obtain o1 c1 where oc: "closed_results r = (o1, c1)" by (cases "closed_results r")
  let ?n = "next_id (w_deferreds s)"
  let ?r = "and_then (and_then (and_then
                  (errback_each (w_deferreds s) (w_verifier_observers s) o1)
                  (\<lambda>h. errback_each h (w_version_observers s) o1))
                  (\<lambda>h. errback_each h (w_received_observers s) o1))
                  (\<lambda>h. callback_each h (w_closed_observers s) c1)"
  from assms have lt: "\<forall>d\<in>set (w_verifier_observers s). d < ?n"
    "\<forall>d\<in>set (w_version_observers s). d < ?n" "\<forall>d\<in>set (w_received_observers s). d < ?n"
    "\<forall>d\<in>set (w_closed_observers s). d < ?n" and ok: "heap_ok (w_deferreds s)"
    by (auto simp: allocated_iff set_observers)
  have "heap_ok (snd ?r) \<and> next_id (snd ?r) = ?n"
    by (intro and_then_heap_ok)
       (use lt ok in \<open>simp_all add: errback_each_def callback_each_heap_ok callback_each_prefix\<close>)
  with assms show ?thesis
    by (auto simp: closed_def oc split_beta allocated_iff set_observers)
qed

lemma allocated_step: assumes "allocated s" shows "allocated (snd (step s e))"
proof (cases e)
  case (GotCode v) then show ?thesis using allocated_got_code[OF assms] by (simp add: split_beta)
next
  case (GotVerifier v) then show ?thesis using allocated_got_verifier[OF assms] by (simp add: split_beta)
next
  case (GotVersion v) then show ?thesis using allocated_got_version[OF assms] by (simp add: split_beta)
next
  case (Received v) then show ?thesis using allocated_received[OF assms] by (simp add: split_beta)
next
  case (Closed v) then show ?thesis using allocated_closed[OF assms] by (simp add: split_beta)
next
  case (AllocateCode v) with assms show ?thesis
    by (simp add: allocated_iff set_observers allocate_code_def)
next
  case (InputCode v) with assms show ?thesis
    by (simp add: allocated_iff set_observers input_code_def)
next
  case (SetCode v) with assms show ?thesis
    by (simp add: allocated_iff set_observers set_code_def)
next
  case (Send v) with assms show ?thesis
    by (simp add: allocated_iff set_observers send_def)
next
  case (GotWelcome v) with assms show ?thesis by (simp add: got_welcome_def)
next
  case (GotKey v) with assms show ?thesis
    by (simp add: allocated_iff set_observers got_key_def)
qed (use allocated_when[OF assms] in \<open>simp_all add: split_beta\<close>)

lemma allocated_run: "allocated s \<Longrightarrow> allocated (run s es)"
  by (induction es arbitrary: s) (simp_all add: allocated_step)

lemma live_allocated: "live s \<Longrightarrow> allocated s"
  by (simp add: live_def)

lemma allocated_fresh:
  "allocated s \<Longrightarrow> result_of (w_deferreds s) (next_id (w_deferreds s)) = None"
  by (auto simp: allocated_iff heap_ok_iff result_of_None)

section \<open>What \<^verbatim>\<open>closed\<close> does to a live state\<close>

lemma closed_live:
  assumes "live s"
  shows "closed s r =
     (None, s\<lparr>w_observer_result := fst (closed_results r),
              w_closed_result := snd (closed_results r),
              w_deferreds := (w_deferreds s)\<lparr>fired := fired (w_deferreds s) @
                 map (\<lambda>d. (d, as_failure (fst (closed_results r))))
                   (w_verifier_observers s @ w_version_observers s @ w_received_observers s) @
                 map (\<lambda>d. (d, snd (closed_results r))) (w_closed_observers s)\<rparr>\<rparr>)"
proof -
  let ?h = "w_deferreds s"
  let ?xs = "w_verifier_observers s @ w_version_observers s @ w_received_observers s"
  let ?f = "as_failure (fst (closed_results r))"
  let ?h1 = "?h\<lparr>fired := fired ?h @ map (\<lambda>d. (d, ?f)) ?xs\<rparr>"
  from live_pending[OF assms]
  have d: "distinct ?xs" "distinct (w_closed_observers s)"
    and disj: "set ?xs \<inter> set (w_closed_observers s) = {}"
    and p: "list_all (\<lambda>d. result_of ?h d = None) ?xs"
      "list_all (\<lambda>d. result_of ?h d = None) (w_closed_observers s)"
    by (auto simp: observers_def)
  have 1: "callback_each ?h ?xs ?f = (None, ?h1)"
    using d(1) p(1) by (rule callback_each_pending)
  have "list_all (\<lambda>d. result_of ?h1 d = None) (w_closed_observers s)"
    using p(2) disj by (auto simp: list_all_iff result_of_append map_of_eq_None_iff image_iff)
  with d(2)
  have 2: "callback_each ?h1 (w_closed_observers s) (snd (closed_results r)) =
     (None, ?h1\<lparr>fired := fired ?h1 @ map (\<lambda>d. (d, snd (closed_results r))) (w_closed_observers s)\<rparr>)"
    by (rule callback_each_pending)
  have "and_then (and_then (and_then
                  (errback_each ?h (w_verifier_observers s) (fst (closed_results r)))
                  (\<lambda>h. errback_each h (w_version_observers s) (fst (closed_results r))))
                  (\<lambda>h. errback_each h (w_received_observers s) (fst (closed_results r))))
                  (\<lambda>h. callback_each h (w_closed_observers s) (snd (closed_results r))) =
        and_then (callback_each ?h ?xs ?f)
                  (\<lambda>h. callback_each h (w_closed_observers s) (snd (closed_results r)))"
    by (simp add: errback_each_def callback_each_append and_then_assoc)
  also have "\<dots> = (None, ?h1\<lparr>fired := fired ?h1 @
       map (\<lambda>d. (d, snd (closed_results r))) (w_closed_observers s)\<rparr>)"
    by (simp add: 1 and_then_def) (use 2 in simp)
  finally show ?thesis by (simp add: closed_def split_beta)
qed

lemma results_step:
  "\<not> is_Closed e \<Longrightarrow>
   w_closed_result (snd (step s e)) = w_closed_result s \<and>
   w_observer_result (snd (step s e)) = w_observer_result s"
  by (cases e)
     (simp_all add: when_code_def when_verifier_def when_version_def when_received_def close_def
       defer_fail_def defer_succeed_def defer_Deferred_def allocate_code_def input_code_def
       set_code_def send_def got_welcome_def got_key_def got_code_def got_verifier_def
       got_version_def received_def split_beta split: list.splits option.splits sum.splits)

lemma results_run:
  "open_session es \<Longrightarrow>
   w_closed_result (run s es) = w_closed_result s \<and>
   w_observer_result (run s es) = w_observer_result s"
  by (induction es arbitrary: s) (simp_all add: open_session_Cons results_step)

section \<open>Pending futures are registered\<close>

lemma pending_iff: "pending s d \<longleftrightarrow> d \<notin> fst ` set (fired (w_deferreds s))"
  by (simp add: pending_def result_of_None)

lemma registry_kept_call:
  assumes "e \<in> {WhenCode, WhenVerifier, WhenVersion, WhenReceived, Close}"
    "d \<in> set (registry c s)"
  shows "d \<in> set (registry c (snd (step s e)))"
  using assms
  by (cases c)
     (auto simp: when_code_def when_verifier_def when_version_def when_received_def close_def
        defer_fail_def defer_succeed_def defer_Deferred_def split: list.splits)

lemma registry_kept_relay:
  assumes "e \<in> {AllocateCode v, InputCode v, SetCode v, Send v, GotWelcome v, GotKey v}"
  shows "registry c (snd (step s e)) = registry c s"
  using assms
  by (cases c)
     (auto simp: allocate_code_def input_code_def set_code_def send_def got_welcome_def
        got_key_def)

lemma registry_kept_got:
  assumes "live s" "e \<in> {GotCode v, GotVerifier v, GotVersion v, Received v}"
    "d \<in> set (registry c s)"
  shows "d \<in> set (registry c (snd (step s e))) \<or> \<not> pending (snd (step s e)) d"
  using assms(2,3)
  by (cases c)
     (auto simp: snd_step got_code_live[OF assms(1)] got_verifier_live[OF assms(1)]
        got_version_live[OF assms(1)] received_live[OF assms(1)] pending_iff image_Un
        image_image split: list.splits)

lemma registry_kept:
  assumes "live s" "\<not> is_Closed e" "d \<in> set (registry c s)"
  shows "d \<in> set (registry c (snd (step s e))) \<or> \<not> pending (snd (step s e)) d"
proof (cases e)
  case (Closed r) with assms(2) show ?thesis by simp
next
  case (GotCode v) with registry_kept_got[OF assms(1) _ assms(3), of e v] show ?thesis by simp
next
  case (GotVerifier v) with registry_kept_got[OF assms(1) _ assms(3), of e v] show ?thesis by simp
next
  case (GotVersion v) with registry_kept_got[OF assms(1) _ assms(3), of e v] show ?thesis by simp
next
  case (Received v) with registry_kept_got[OF assms(1) _ assms(3), of e v] show ?thesis by simp
next
  case (AllocateCode v) with registry_kept_relay[of e v c s] assms(3) show ?thesis by simp
next
  case (InputCode v) with registry_kept_relay[of e v c s] assms(3) show ?thesis by simp
next
  case (SetCode v) with registry_kept_relay[of e v c s] assms(3) show ?thesis by simp
next
  case (Send v) with registry_kept_relay[of e v c s] assms(3) show ?thesis by simp
next
  case (GotWelcome v) with registry_kept_relay[of e v c s] assms(3) show ?thesis by simp
next
  case (GotKey v) with registry_kept_relay[of e v c s] assms(3) show ?thesis by simp
qed (use registry_kept_call[OF _ assms(3), of e] in simp_all)

lemma registry_new:
  assumes "live s" "fst (step s c) = Returned_Deferred d"
  shows "d \<in> set (registry c (snd (step s c))) \<or> \<not> pending (snd (step s c)) d"
  using assms(2) live_results[OF assms(1)]
  by (cases c)
     (auto simp: when_code_def when_verifier_def when_version_def when_received_def close_def
        defer_fail_def defer_succeed_def defer_Deferred_def pending_iff raised_or_none_def
        split_beta split: list.splits option.splits)

lemma pending_run: "pending (run s es) d \<Longrightarrow> pending s d"
  using run_result[of s d _ es] by (cases "result_of (w_deferreds s) d") (auto simp: pending_def)

lemma pending_future_registered:
  assumes "live s" "open_session es"
    "d \<in> set (registry c s) \<union> set (futures (\<lambda>e. e = c) s es)" "pending (run s es) d"
  shows "d \<in> set (registry c (run s es))"
  using assms
proof (induction es arbitrary: s)
  case Nil
  then show ?case by simp
next
  case (Cons e es)
  let ?s = "snd (step s e)"
  from Cons.prems have live: "live ?s" and op: "open_session es" and nc: "\<not> is_Closed e"
    by (simp_all add: open_session_Cons live_step)
  from Cons.prems(4) have pend: "pending (run ?s es) d" by simp
  then have pend1: "pending ?s d" by (rule pending_run)
  have "d \<in> set (registry c ?s) \<union> set (futures (\<lambda>e. e = c) ?s es)"
  proof (cases "d \<in> set (futures (\<lambda>e. e = c) ?s es)")
    case True
    then show ?thesis by simp
  next
    case False
    with Cons.prems(3) consider "d \<in> set (registry c s)"
      | "e = c" "fst (step s e) = Returned_Deferred d"
      by (auto split: outcome.splits if_splits)
    then show ?thesis
    proof cases
      case 1
      with registry_kept[OF Cons.prems(1) nc, of d c] pend1 show ?thesis by simp
    next
      case 2
      with registry_new[OF Cons.prems(1), of c d] pend1 show ?thesis by simp
    qed
  qed
  from Cons.IH[OF live op this pend] show ?case by simp
qed

section \<open>The close observers of an open session\<close>

lemma closed_observers_step:
  assumes "live s" "\<not> is_Closed e"
  shows "w_closed_observers (snd (step s e)) =
           w_closed_observers s @ (if e = Close then [next_id (w_deferreds s)] else []) \<and>
         w_boss (snd (step s e)) = w_boss s @
           (case e of Close \<Rightarrow> [Boss_close] | AllocateCode n \<Rightarrow> [Boss_allocate_code n]
            | InputCode x \<Rightarrow> [Boss_input_code x] | SetCode c \<Rightarrow> [Boss_set_code c]
            | Send p \<Rightarrow> [Boss_send p] | _ \<Rightarrow> []) \<and>
         (e = Close \<longrightarrow> fst (step s e) = Returned_Deferred (next_id (w_deferreds s)))"
  using assms(2) live_results[OF assms(1)]
  by (cases e)
     (simp_all add: when_code_def when_verifier_def when_version_def when_received_def close_def
       defer_fail_def defer_succeed_def defer_Deferred_def allocate_code_def input_code_def
       set_code_def send_def got_welcome_def got_key_def got_code_live[OF assms(1)]
       got_verifier_live[OF assms(1)] got_version_live[OF assms(1)] received_live[OF assms(1)]
       split_beta split: list.splits)

lemma closed_observers_run:
  assumes "live s" "open_session es"
  shows "w_closed_observers (run s es) = w_closed_observers s @ futures (\<lambda>e. e = Close) s es \<and>
         filter (\<lambda>c. c = Boss_close) (w_boss (run s es)) =
           filter (\<lambda>c. c = Boss_close) (w_boss s) @ map (\<lambda>e. Boss_close) (filter (\<lambda>e. e = Close) es)"
  using assms
proof (induction es arbitrary: s)
  case Nil
  then show ?case by simp
next
  case (Cons e es)
  let ?s = "snd (step s e)"
  from Cons.prems have live: "live ?s" and op: "open_session es" and nc: "\<not> is_Closed e"
    by (simp_all add: open_session_Cons live_step)
  from closed_observers_step[OF Cons.prems(1) nc] Cons.IH[OF live op] show ?case
    by (cases e) (simp_all split: outcome.splits)
qed

section \<open>Closing a live session\<close>

lemma map_of_const: "map_of (map (\<lambda>d. (d, v)) xs) d = (if d \<in> set xs then Some v else None)"
  by (induction xs) auto

lemma closed_live_result:
  assumes "live s"
  shows "result_of (w_deferreds (snd (closed s r))) d =
     (case result_of (w_deferreds s) d of
        Some v \<Rightarrow> Some v
      | None \<Rightarrow>
         if d \<in> set (w_verifier_observers s @ w_version_observers s @ w_received_observers s)
         then Some (as_failure (fst (closed_results r)))
         else if d \<in> set (w_closed_observers s) then Some (snd (closed_results r))
         else None)"
  by (simp add: closed_live[OF assms] result_of_append map_of_append map_add_def map_of_const
        split: option.splits del: map_append)

lemma closed_live_fields:
  assumes "live s"
  shows "fst (closed s r) = None"
    "w_closed_result (snd (closed s r)) = snd (closed_results r)"
    "w_observer_result (snd (closed s r)) = fst (closed_results r)"
    "w_boss (snd (closed s r)) = w_boss s"
  by (simp_all add: closed_live[OF assms])

lemma live_observers_pending:
  assumes "live s" "d \<in> set (observers s)"
  shows "result_of (w_deferreds s) d = None"
  using assms by (auto simp: live_def list_all_iff)

lemma live_closed_not_others:
  assumes "live s" "d \<in> set (w_closed_observers s)"
  shows "d \<notin> set (w_verifier_observers s @ w_version_observers s @ w_received_observers s)"
  using live_pending(1)[OF assms(1)] assms(2) by (auto simp: observers_def)

text \<open>a \<^verbatim>\<open>close()\<close> call once a truthy result is stored\<close>

lemma close_cached:
  assumes "allocated s" "truthy (w_closed_result s)"
  shows "fst (step s Close) = Returned_Deferred (next_id (w_deferreds s))"
    "result_of (w_deferreds (snd (step s Close))) (next_id (w_deferreds s)) =
       Some (w_closed_result s)"
    "w_boss (snd (step s Close)) = w_boss s"
  using assms allocated_fresh[OF assms(1)]
  by (simp_all add: close_def defer_succeed_def result_of_def map_add_def)

lemma truthy_exception_result: "is_exception r \<Longrightarrow> truthy (snd (closed_results r))"
  by (simp add: closed_results_def)

lemma live_run_init: "open_session es \<Longrightarrow> live (run init es)"
  by (simp add: live_run live_init)

lemma close_futures_resolved:
  assumes "open_session es" "d \<in> set (futures (\<lambda>e. e = Close) init es)"
  shows "pending (run init es) d"
    "result_of (w_deferreds (snd (closed (run init es) r))) d = Some (snd (closed_results r))"
proof -
  let ?s = "run init es"
  have live: "live ?s" using assms(1) by (rule live_run_init)
  from closed_observers_run[OF live_init assms(1)]
  have obs: "w_closed_observers ?s = futures (\<lambda>e. e = Close) init es"
    by (simp add: init_def)
  with assms(2) have d: "d \<in> set (w_closed_observers ?s)" by simp
  then have "d \<in> set (observers ?s)" by (simp add: observers_def)
  then have p: "result_of (w_deferreds ?s) d = None" by (rule live_observers_pending[OF live])
  then show "pending ?s d" by (simp add: pending_def)
  from p d live_closed_not_others[OF live d]
  show "result_of (w_deferreds (snd (closed ?s r))) d = Some (snd (closed_results r))"
    by (simp add: closed_live_result[OF live])
qed

lemma later_close_cached:
  assumes "open_session es" "open_session es'" "truthy (snd (closed_results r))"
  shows
    "fst (step (run (snd (closed (run init es) r)) es') Close) =
       Returned_Deferred (next_id (w_deferreds (run (snd (closed (run init es) r)) es')))"
    "result_of (w_deferreds (snd (step (run (snd (closed (run init es) r)) es') Close)))
        (next_id (w_deferreds (run (snd (closed (run init es) r)) es'))) =
       Some (snd (closed_results r))"
    "w_boss (snd (step (run (snd (closed (run init es) r)) es') Close)) =
       w_boss (run (snd (closed (run init es) r)) es')"
proof -
  let ?s = "run init es"
  let ?c = "snd (closed ?s r)"
  let ?t = "run ?c es'"
  have live: "live ?s" using assms(1) by (rule live_run_init)
  have "allocated ?c"
    using allocated_closed[OF live_allocated[OF live]] .
  then have al: "allocated ?t" by (rule allocated_run)
  have res: "w_closed_result ?t = snd (closed_results r)"
    using results_run[OF assms(2), of ?c] by (simp add: closed_live_fields(2)[OF live])
  with assms(3) have tr: "truthy (w_closed_result ?t)" by simp
  from close_cached[OF al tr] res
  show "fst (step ?t Close) = Returned_Deferred (next_id (w_deferreds ?t))"
    "result_of (w_deferreds (snd (step ?t Close))) (next_id (w_deferreds ?t)) =
       Some (snd (closed_results r))"
    "w_boss (snd (step ?t Close)) = w_boss ?t"
    by simp_all
qed

lemma boss_close_count:
  assumes "open_session es"
  shows "length (filter (\<lambda>c. c = Boss_close) (w_boss (run init es))) =
         length (filter (\<lambda>e. e = Close) es)"
  using closed_observers_run[OF live_init assms] by (simp add: init_def)

text \<open>
  Claim C3, amended. In a session \<open>es\<close> in which \<^verbatim>\<open>closed\<close> has not fired yet, every
  \<^verbatim>\<open>close()\<close> call forwards one \<^verbatim>\<open>close\<close> to the controller and returns a pending future.
  When \<^verbatim>\<open>closed(r)\<close> then fires, with any result \<open>r\<close>, it raises nothing, and all these
  futures resolve with the same terminal value: \<^verbatim>\<open>Failure(r)\<close> for an exception, \<open>r\<close>
  itself otherwise; they keep it whatever follows (\<open>es'\<close>). If that value is truthy, a
  \<^verbatim>\<open>close()\<close> made at any later point returns a new future that is already resolved with
  the same value, and does not call the controller.
\<close>

theorem close_same_result:
  assumes "open_session es" "open_session es'"
  shows
    "length (filter (\<lambda>c. c = Boss_close) (w_boss (run init es))) =
       length (filter (\<lambda>e. e = Close) es) \<and>
     fst (closed (run init es) r) = None \<and>
     (\<forall>d\<in>set (futures (\<lambda>e. e = Close) init es).
        pending (run init es) d \<and>
        result_of (w_deferreds (run (snd (closed (run init es) r)) es')) d =
          Some (snd (closed_results r))) \<and>
     (truthy (snd (closed_results r)) \<longrightarrow>
        fst (step (run (snd (closed (run init es) r)) es') Close) =
          Returned_Deferred (next_id (w_deferreds (run (snd (closed (run init es) r)) es'))) \<and>
        result_of (w_deferreds (snd (step (run (snd (closed (run init es) r)) es') Close)))
           (next_id (w_deferreds (run (snd (closed (run init es) r)) es'))) =
          Some (snd (closed_results r)) \<and>
        w_boss (snd (step (run (snd (closed (run init es) r)) es') Close)) =
          w_boss (run (snd (closed (run init es) r)) es'))"
proof -
  have a: "fst (closed (run init es) r) = None"
    by (rule closed_live_fields(1)[OF live_run_init[OF assms(1)]])
  have b: "\<forall>d\<in>set (futures (\<lambda>e. e = Close) init es).
        pending (run init es) d \<and>
        result_of (w_deferreds (run (snd (closed (run init es) r)) es')) d =
          Some (snd (closed_results r))"
    using close_futures_resolved[OF assms(1)] by (blast intro: run_result)
  have c: "truthy (snd (closed_results r)) \<longrightarrow>
        fst (step (run (snd (closed (run init es) r)) es') Close) =
          Returned_Deferred (next_id (w_deferreds (run (snd (closed (run init es) r)) es'))) \<and>
        result_of (w_deferreds (snd (step (run (snd (closed (run init es) r)) es') Close)))
           (next_id (w_deferreds (run (snd (closed (run init es) r)) es'))) =
          Some (snd (closed_results r)) \<and>
        w_boss (snd (step (run (snd (closed (run init es) r)) es') Close)) =
          w_boss (run (snd (closed (run init es) r)) es')"
    using later_close_cached[OF assms(1) assms(2), of r] by simp
  from boss_close_count[OF assms(1)] a b c show ?thesis by blast
qed

text \<open>
  Claim C3, amended, at the session \<^verbatim>\<open>close(); close(); closed("happy"); close()\<close>: three
  futures with the result \<^verbatim>\<open>"happy"\<close>, two calls of the controller.
\<close>

theorem close_same_result_witness:
  "open_session [Close, Close] \<and> open_session [] \<and>
   truthy (snd (closed_results (PStr ''happy''))) \<and>
   futures (\<lambda>e. e = Close) init [Close, Close] = [0, 1] \<and>
   w_boss (run init [Close, Close]) = [Boss_close, Boss_close] \<and>
   result_of (w_deferreds (run init [Close, Close, Closed (PStr ''happy'')])) 0 =
     Some (PStr ''happy'') \<and>
   result_of (w_deferreds (run init [Close, Close, Closed (PStr ''happy'')])) 1 =
     Some (PStr ''happy'') \<and>
   fst (step (run init [Close, Close, Closed (PStr ''happy'')]) Close) = Returned_Deferred 2 \<and>
   result_of (w_deferreds (run init [Close, Close, Closed (PStr ''happy''), Close])) 2 =
     Some (PStr ''happy'') \<and>
   w_boss (run init [Close, Close, Closed (PStr ''happy''), Close]) = [Boss_close, Boss_close]"
  using close_same_result[where es = "[Close, Close]" and es' = "[]" and r = "PStr ''happy''"]
  by (simp add: facade_defs open_session_def)

text \<open>
  What the code does satisfy of the graceful close (the part of claim C4 that holds). Let
  \<^verbatim>\<open>closed(r)\<close> fire, with \<open>r\<close> not an exception, in a session \<open>es\<close> in which it has not
  fired before. It raises nothing; every future returned by
  \<^verbatim>\<open>when_verifier\<close>, \<^verbatim>\<open>when_version\<close> or \<^verbatim>\<open>when_received\<close> that is still pending fails with
  \<^verbatim>\<open>WormholeClosed(r)\<close>; every future returned by \<^verbatim>\<open>close()\<close> is pending and resolves with
  \<open>r\<close> itself. If \<open>r\<close> is truthy, a \<^verbatim>\<open>close()\<close> made at any later point returns a future
  already resolved with \<open>r\<close>, without calling the controller.
\<close>

lemma graceful_close:
  assumes "open_session es" "\<not> is_exception r" "open_session es'"
  shows
    "fst (closed (run init es) r) = None \<and>
     (\<forall>d\<in>set (futures (\<lambda>e. e = WhenVerifier) init es @ futures (\<lambda>e. e = WhenVersion) init es @
               futures (\<lambda>e. e = WhenReceived) init es).
        pending (run init es) d \<longrightarrow>
        result_of (w_deferreds (snd (closed (run init es) r))) d =
          Some (PFailure (PWormholeClosed r))) \<and>
     (\<forall>d\<in>set (futures (\<lambda>e. e = Close) init es).
        pending (run init es) d \<and>
        result_of (w_deferreds (snd (closed (run init es) r))) d = Some r) \<and>
     (truthy r \<longrightarrow>
        fst (step (run (snd (closed (run init es) r)) es') Close) =
          Returned_Deferred (next_id (w_deferreds (run (snd (closed (run init es) r)) es'))) \<and>
        result_of (w_deferreds (snd (step (run (snd (closed (run init es) r)) es') Close)))
           (next_id (w_deferreds (run (snd (closed (run init es) r)) es'))) = Some r \<and>
        w_boss (snd (step (run (snd (closed (run init es) r)) es') Close)) =
          w_boss (run (snd (closed (run init es) r)) es'))"
proof -
  let ?s = "run init es"
  let ?c = "snd (closed ?s r)"
  have live: "live ?s" using assms(1) by (rule live_run_init)
  have cr: "closed_results r = (PWormholeClosed r, r)"
    using assms(2) by (simp add: closed_results_def)
  have a: "fst (closed ?s r) = None" by (rule closed_live_fields(1)[OF live])
  have b: "\<forall>d\<in>set (futures (\<lambda>e. e = WhenVerifier) init es @ futures (\<lambda>e. e = WhenVersion) init es @
               futures (\<lambda>e. e = WhenReceived) init es).
        pending ?s d \<longrightarrow> result_of (w_deferreds ?c) d = Some (PFailure (PWormholeClosed r))"
  proof (intro ballI impI)
    fix d
    assume d: "d \<in> set (futures (\<lambda>e. e = WhenVerifier) init es @
                 futures (\<lambda>e. e = WhenVersion) init es @ futures (\<lambda>e. e = WhenReceived) init es)"
      and p: "pending ?s d"
    from d consider "d \<in> set (futures (\<lambda>e. e = WhenVerifier) init es)"
      | "d \<in> set (futures (\<lambda>e. e = WhenVersion) init es)"
      | "d \<in> set (futures (\<lambda>e. e = WhenReceived) init es)" by auto
    then have "d \<in> set (w_verifier_observers ?s @ w_version_observers ?s @ w_received_observers ?s)"
    proof cases
      case 1
      with pending_future_registered[OF live_init assms(1), of d WhenVerifier] p show ?thesis by simp
    next
      case 2
      with pending_future_registered[OF live_init assms(1), of d WhenVersion] p show ?thesis by simp
    next
      case 3
      with pending_future_registered[OF live_init assms(1), of d WhenReceived] p show ?thesis by simp
    qed
    with p show "result_of (w_deferreds ?c) d = Some (PFailure (PWormholeClosed r))"
      by (simp add: closed_live_result[OF live] pending_def cr)
  qed
  have c: "\<forall>d\<in>set (futures (\<lambda>e. e = Close) init es).
        pending ?s d \<and> result_of (w_deferreds ?c) d = Some r"
    using close_futures_resolved(1)[OF assms(1)] close_futures_resolved(2)[OF assms(1), of _ r]
    by (simp add: cr)
  have d: "truthy r \<longrightarrow>
        fst (step (run ?c es') Close) = Returned_Deferred (next_id (w_deferreds (run ?c es'))) \<and>
        result_of (w_deferreds (snd (step (run ?c es') Close)))
           (next_id (w_deferreds (run ?c es'))) = Some r \<and>
        w_boss (snd (step (run ?c es') Close)) = w_boss (run ?c es')"
    using later_close_cached[OF assms(1) assms(3), of r] by (simp add: cr)
  from a b c d show ?thesis by blast
qed

text \<open>
  The graceful close at the spec's scenario: pending verifier, version and received futures
  and a pending close, then \<^verbatim>\<open>closed("bye")\<close>, then one more \<^verbatim>\<open>close()\<close>.
\<close>

lemma graceful_close_witness:
  "open_session [WhenVerifier, WhenVersion, WhenReceived, Close] \<and>
   \<not> is_exception (PStr ''bye'') \<and> open_session [] \<and> truthy (PStr ''bye'') \<and>
   futures (\<lambda>e. e = WhenVerifier) init [WhenVerifier, WhenVersion, WhenReceived, Close] = [0] \<and>
   futures (\<lambda>e. e = WhenVersion) init [WhenVerifier, WhenVersion, WhenReceived, Close] = [1] \<and>
   futures (\<lambda>e. e = WhenReceived) init [WhenVerifier, WhenVersion, WhenReceived, Close] = [2] \<and>
   futures (\<lambda>e. e = Close) init [WhenVerifier, WhenVersion, WhenReceived, Close] = [3] \<and>
   result_of (w_deferreds (run init
      [WhenVerifier, WhenVersion, WhenReceived, Close, Closed (PStr ''bye'')])) 0 =
     Some (PFailure (PWormholeClosed (PStr ''bye''))) \<and>
   result_of (w_deferreds (run init
      [WhenVerifier, WhenVersion, WhenReceived, Close, Closed (PStr ''bye'')])) 1 =
     Some (PFailure (PWormholeClosed (PStr ''bye''))) \<and>
   result_of (w_deferreds (run init
      [WhenVerifier, WhenVersion, WhenReceived, Close, Closed (PStr ''bye'')])) 2 =
     Some (PFailure (PWormholeClosed (PStr ''bye''))) \<and>
   result_of (w_deferreds (run init
      [WhenVerifier, WhenVersion, WhenReceived, Close, Closed (PStr ''bye'')])) 3 =
     Some (PStr ''bye'') \<and>
   result_of (w_deferreds (run init
      [WhenVerifier, WhenVersion, WhenReceived, Close, Closed (PStr ''bye''), Close])) 4 =
     Some (PStr ''bye'')"
  using graceful_close[of "[WhenVerifier, WhenVersion, WhenReceived, Close]" "PStr ''bye''" "[]"]
  by (simp add: facade_defs open_session_def)

section \<open>The one-shot categories: code, verifier, version\<close>

lemmas call_defs =
  when_code_def when_verifier_def when_version_def when_received_def close_def
  defer_fail_def defer_succeed_def defer_Deferred_def
  allocate_code_def input_code_def set_code_def send_def got_welcome_def got_key_def

text \<open>a step of an open session that is not the category's own event\<close>

lemma category_step:
  assumes "live s" "\<not> is_Closed e" "\<not> is_got c e"
  shows "category_value c (snd (step s e)) = category_value c s"
    and "category_observers c (snd (step s e)) =
           category_observers c s @
           (if e = when_event c \<and> category_value c s = PNone
            then [next_id (w_deferreds s)] else [])"
    and "e = when_event c \<Longrightarrow> fst (step s e) = Returned_Deferred (next_id (w_deferreds s))"
    and "e = when_event c \<Longrightarrow> category_value c s \<noteq> PNone \<Longrightarrow>
           result_of (w_deferreds (snd (step s e))) (next_id (w_deferreds s)) =
             Some (category_value c s)"
proof -
  note live = got_code_live[OF assms(1)] got_verifier_live[OF assms(1)]
    got_version_live[OF assms(1)] received_live[OF assms(1)]
  note res = live_results[OF assms(1)]
  note fresh = allocated_fresh[OF live_allocated[OF assms(1)]]
  show "category_value c (snd (step s e)) = category_value c s"
    using assms(2,3) res
    by (cases c; cases e) (simp_all add: call_defs live split: list.splits)
  show "category_observers c (snd (step s e)) =
           category_observers c s @
           (if e = when_event c \<and> category_value c s = PNone
            then [next_id (w_deferreds s)] else [])"
    using assms(2,3) res
    by (cases c; cases e) (simp_all add: call_defs live split: list.splits)
  show "e = when_event c \<Longrightarrow> fst (step s e) = Returned_Deferred (next_id (w_deferreds s))"
    using res by (cases c) (simp_all add: call_defs)
  show "e = when_event c \<Longrightarrow> category_value c s \<noteq> PNone \<Longrightarrow>
           result_of (w_deferreds (snd (step s e))) (next_id (w_deferreds s)) =
             Some (category_value c s)"
    using res fresh by (cases c) (simp_all add: call_defs result_of_def map_add_def)
qed

lemma no_got_Cons: "filter (is_got c) (e # es) = [] \<longleftrightarrow> \<not> is_got c e \<and> filter (is_got c) es = []"
  by simp

lemma category_run_unset:
  assumes "live s" "open_session es" "filter (is_got c) es = []" "category_value c s = PNone"
  shows "category_value c (run s es) = PNone \<and>
         category_observers c (run s es) =
           category_observers c s @ futures (\<lambda>e. e = when_event c) s es"
  using assms
proof (induction es arbitrary: s)
  case Nil
  then show ?case by simp
next
  case (Cons e es)
  let ?s = "snd (step s e)"
  from Cons.prems have nc: "\<not> is_Closed e" and ng: "\<not> is_got c e"
    and op: "open_session es" and ngs: "filter (is_got c) es = []"
    by (simp_all add: open_session_Cons split: if_splits)
  have live: "live ?s" using Cons.prems(1) nc by (rule live_step)
  note st = category_step[OF Cons.prems(1) nc ng]
  have val: "category_value c ?s = PNone" using st(1) Cons.prems(4) by simp
  from Cons.IH[OF live op ngs val] st(2) st(3) Cons.prems(4) show ?case
    by (cases "e = when_event c") (simp_all split: outcome.splits)
qed

lemma category_run_set:
  assumes "live s" "open_session es" "filter (is_got c) es = []"
  shows "category_value c (run s es) = category_value c s"
  using assms
proof (induction es arbitrary: s)
  case Nil
  then show ?case by simp
next
  case (Cons e es)
  let ?s = "snd (step s e)"
  from Cons.prems have nc: "\<not> is_Closed e" and ng: "\<not> is_got c e"
    and op: "open_session es" and ngs: "filter (is_got c) es = []"
    by (simp_all add: open_session_Cons split: if_splits)
  have live: "live ?s" using Cons.prems(1) nc by (rule live_step)
  from Cons.IH[OF live op ngs] category_step(1)[OF Cons.prems(1) nc ng] show ?case by simp
qed

lemma category_run_kept:
  assumes "live s" "open_session es" "filter (is_got c) es = []" "category_value c s \<noteq> PNone"
  shows "category_observers c (run s es) = category_observers c s"
  using assms
proof (induction es arbitrary: s)
  case Nil
  then show ?case by simp
next
  case (Cons e es)
  let ?s = "snd (step s e)"
  from Cons.prems have nc: "\<not> is_Closed e" and ng: "\<not> is_got c e"
    and op: "open_session es" and ngs: "filter (is_got c) es = []"
    by (simp_all add: open_session_Cons split: if_splits)
  have live: "live ?s" using Cons.prems(1) nc by (rule live_step)
  note st = category_step[OF Cons.prems(1) nc ng]
  from st(1) Cons.prems(4) have "category_value c ?s \<noteq> PNone" by simp
  from Cons.IH[OF live op ngs this] st(2) Cons.prems(4) show ?case by simp
qed

text \<open>the category's own event in a live state\<close>

lemma got_event_live:
  assumes "live s"
  shows "fst (step s (got_event c v)) = Returned_None"
    and "fired (w_deferreds (snd (step s (got_event c v)))) =
           fired (w_deferreds s) @ map (\<lambda>d. (d, v)) (category_observers c s)"
    and "category_observers c (snd (step s (got_event c v))) = []"
    and "category_value c (snd (step s (got_event c v))) = v"
  by (cases c; simp add: got_code_live[OF assms] got_verifier_live[OF assms]
        got_version_live[OF assms] raised_or_none_def)+

lemma is_Closed_got_event: "\<not> is_Closed (got_event c v)"
  by (cases c) simp_all

lemma is_got_when_event: "\<not> is_got c (when_event c')" "\<not> is_Closed (when_event c')"
  by (cases c; cases c'; simp)+

lemma result_of_fired_map:
  assumes "fired h' = fired h @ map (\<lambda>d. (d, v)) ds" "d \<in> set ds" "result_of h d = None"
  shows "result_of h' d = Some v"
  using assms by (simp add: result_of_def map_add_def map_of_const)

text \<open>
  Claim C5. Take a category \<open>c\<close> of code, verifier and version, and a session in which
  \<^verbatim>\<open>closed\<close> never fires and \<^verbatim>\<open>got_X(v)\<close> fires once, after the calls and events \<open>pre\<close> and
  before \<open>post\<close>; \<open>v\<close> is a value, not \<^verbatim>\<open>None\<close>, which the code uses for ``unset''.
  Then \<^verbatim>\<open>got_X\<close> raises nothing. The futures returned by the \<^verbatim>\<open>when_X\<close> calls of \<open>pre\<close>
  are all pending before it, and it fires exactly these, each with \<open>v\<close>, in the order of
  the calls, and empties the waiter list. They keep the result \<open>v\<close>, no Deferred is ever
  fired twice, and a \<^verbatim>\<open>when_X\<close> call made at any later point returns a new future that is
  already resolved with \<open>v\<close> and registers no waiter.
\<close>

theorem one_shot_category:
  assumes "open_session pre" "filter (is_got c) pre = []" "v \<noteq> PNone"
    and "open_session post" "filter (is_got c) post = []"
  shows
    "fst (step (run init pre) (got_event c v)) = Returned_None \<and>
     (\<forall>d\<in>set (futures (\<lambda>e. e = when_event c) init pre). pending (run init pre) d) \<and>
     fired (w_deferreds (snd (step (run init pre) (got_event c v)))) =
       fired (w_deferreds (run init pre)) @
       map (\<lambda>d. (d, v)) (futures (\<lambda>e. e = when_event c) init pre) \<and>
     category_observers c (snd (step (run init pre) (got_event c v))) = [] \<and>
     (\<forall>d\<in>set (futures (\<lambda>e. e = when_event c) init pre).
        result_of (w_deferreds (run (snd (step (run init pre) (got_event c v))) post)) d =
          Some v) \<and>
     distinct (map fst (fired (w_deferreds
        (run (snd (step (run init pre) (got_event c v))) post)))) \<and>
     fst (step (run (snd (step (run init pre) (got_event c v))) post) (when_event c)) =
       Returned_Deferred
         (next_id (w_deferreds (run (snd (step (run init pre) (got_event c v))) post))) \<and>
     result_of (w_deferreds (snd (step
          (run (snd (step (run init pre) (got_event c v))) post) (when_event c))))
        (next_id (w_deferreds (run (snd (step (run init pre) (got_event c v))) post))) =
       Some v \<and>
     category_observers c (snd (step
          (run (snd (step (run init pre) (got_event c v))) post) (when_event c))) = []"
proof -
  let ?s = "run init pre"
  let ?F = "futures (\<lambda>e. e = when_event c) init pre"
  let ?g = "snd (step ?s (got_event c v))"
  let ?t = "run ?g post"
  have live: "live ?s" using assms(1) by (rule live_run_init)
  have unset: "category_value c init = PNone" "category_observers c init = []"
    by (cases c; simp add: init_def)+
  from category_run_unset[OF live_init assms(1,2) unset(1)] unset(2)
  have obs: "category_observers c ?s = ?F" by simp
  note got = got_event_live[OF live, of c v]
  have liveg: "live ?g" using live is_Closed_got_event by (rule live_step)
  have livet: "live ?t" using liveg assms(4) by (rule live_run)
  have pend: "\<forall>d\<in>set ?F. pending ?s d"
  proof
    fix d assume "d \<in> set ?F"
    then have "d \<in> set (observers ?s)" using obs by (cases c) (auto simp: observers_def)
    then show "pending ?s d" using live_observers_pending[OF live] by (simp add: pending_def)
  qed
  have resolved: "\<forall>d\<in>set ?F. result_of (w_deferreds ?t) d = Some v"
  proof
    fix d assume d: "d \<in> set ?F"
    with pend have "result_of (w_deferreds ?s) d = None" by (simp add: pending_def)
    with got(2) d obs have "result_of (w_deferreds ?g) d = Some v"
      by (intro result_of_fired_map[of "w_deferreds ?g" "w_deferreds ?s" v ?F]) simp_all
    then show "result_of (w_deferreds ?t) d = Some v" by (rule run_result)
  qed
  have dist: "distinct (map fst (fired (w_deferreds ?t)))"
    using live_allocated[OF livet] by (simp add: allocated_def heap_ok_def)
  have valt: "category_value c ?t = v"
    using category_run_set[OF liveg assms(4,5)] got(4) by simp
  have obst: "category_observers c ?t = []"
    using category_run_kept[OF liveg assms(4,5)] got(3) got(4) assms(3) by simp
  note w = category_step[OF livet is_got_when_event(2) is_got_when_event(1), of c c]
  from w(2) w(3) w(4) valt assms(3) obst got(1) got(2) got(3) obs pend resolved dist
  show ?thesis by simp
qed

text \<open>
  Claim C5 for the code: two \<^verbatim>\<open>when_code\<close> calls around a \<^verbatim>\<open>when_received\<close>, then
  \<^verbatim>\<open>got_code\<close>, a \<^verbatim>\<open>when_verifier\<close> and one more \<^verbatim>\<open>when_code\<close>.
\<close>

theorem one_shot_category_witness:
  "open_session [WhenCode, WhenReceived, WhenCode] \<and>
   filter (is_got Code) [WhenCode, WhenReceived, WhenCode] = [] \<and>
   PStr ''7-guitarist-revenge'' \<noteq> PNone \<and>
   open_session [WhenVerifier] \<and> filter (is_got Code) [WhenVerifier] = [] \<and>
   futures (\<lambda>e. e = when_event Code) init [WhenCode, WhenReceived, WhenCode] = [0, 2] \<and>
   fired (w_deferreds (run init [WhenCode, WhenReceived, WhenCode])) = [] \<and>
   fired (w_deferreds (run init
      [WhenCode, WhenReceived, WhenCode, GotCode (PStr ''7-guitarist-revenge'')])) =
     [(0, PStr ''7-guitarist-revenge''), (2, PStr ''7-guitarist-revenge'')] \<and>
   w_code_observers (run init
      [WhenCode, WhenReceived, WhenCode, GotCode (PStr ''7-guitarist-revenge'')]) = [] \<and>
   fst (step (run init
      [WhenCode, WhenReceived, WhenCode, GotCode (PStr ''7-guitarist-revenge''), WhenVerifier])
      WhenCode) = Returned_Deferred 4 \<and>
   result_of (w_deferreds (run init
      [WhenCode, WhenReceived, WhenCode, GotCode (PStr ''7-guitarist-revenge''), WhenVerifier,
       WhenCode])) 4 = Some (PStr ''7-guitarist-revenge'')"
  using one_shot_category[of "[WhenCode, WhenReceived, WhenCode]" Code
      "PStr ''7-guitarist-revenge''" "[WhenVerifier]"]
  by (simp add: facade_defs open_session_def)

section \<open>First come, first served: requests and payloads\<close>

lemma step_returns:
  "fst (step s e) = Returned_Deferred d \<Longrightarrow>
   d = next_id (w_deferreds s) \<and> next_id (w_deferreds (snd (step s e))) = Suc d"
  by (cases e)
     (auto simp: call_defs raised_or_none_def split_beta split: list.splits option.splits)

lemma futures_increasing:
  "sorted_wrt (<) (futures P s es) \<and>
   (\<forall>d\<in>set (futures P s es). next_id (w_deferreds s) \<le> d)"
proof (induction es arbitrary: s)
  case Nil
  then show ?case by simp
next
  case (Cons e es)
  let ?s = "snd (step s e)"
  note ih = Cons.IH[of ?s]
  from step_prefix[of s e] have mono: "next_id (w_deferreds s) \<le> next_id (w_deferreds ?s)"
    by simp
  show ?case
  proof (cases "fst (step s e)")
    case (Returned_Deferred d)
    from step_returns[OF this] ih mono Returned_Deferred show ?thesis
      by (auto simp: sorted_wrt_append)
  next
    case (Raised x)
    with ih mono show ?thesis by auto
  next
    case Returned_None
    with ih mono show ?thesis by auto
  qed
qed

lemma futures_distinct: "distinct (futures P s es)"
  using futures_increasing[of P s es] by (simp add: strict_sorted_iff)

text \<open>
  One step of an open session either leaves the sequences of requests and payloads still to
  be paired as they are, or pairs the first request with the first payload.
\<close>

lemma pairing_step:
  assumes "live s" "\<not> is_Closed e" "w_received_data s = [] \<or> w_received_observers s = []"
  shows
    "(w_received_observers s @ futures (\<lambda>e. e = WhenReceived) s (e # es) =
        w_received_observers (snd (step s e)) @
          futures (\<lambda>e. e = WhenReceived) (snd (step s e)) es \<and>
      w_received_data s @ payloads (e # es) =
        w_received_data (snd (step s e)) @ payloads es) \<or>
     (\<exists>d p.
        w_received_observers s @ futures (\<lambda>e. e = WhenReceived) s (e # es) =
          d # w_received_observers (snd (step s e)) @
            futures (\<lambda>e. e = WhenReceived) (snd (step s e)) es \<and>
        w_received_data s @ payloads (e # es) =
          p # w_received_data (snd (step s e)) @ payloads es \<and>
        result_of (w_deferreds (snd (step s e))) d = Some p)"
proof -
  note res = live_results[OF assms(1)]
  note fresh = allocated_fresh[OF live_allocated[OF assms(1)]]
  show ?thesis
  proof (cases e)
    case WhenReceived
    show ?thesis
    proof (cases "w_received_data s")
      case Nil
      with WhenReceived res show ?thesis by (simp add: call_defs)
    next
      case (Cons p ps)
      with assms(3) have "w_received_observers s = []" by simp
      with WhenReceived Cons res fresh show ?thesis
        by (simp add: call_defs result_of_def map_add_def)
    qed
  next
    case (Received p)
    show ?thesis
    proof (cases "w_received_observers s")
      case Nil
      with Received show ?thesis by (simp add: received_live[OF assms(1)] raised_or_none_def)
    next
      case (Cons d ds)
      with assms(3) have d: "w_received_data s = []" by simp
      from Cons have "d \<in> set (observers s)" by (simp add: observers_def)
      then have "result_of (w_deferreds s) d = None" by (rule live_observers_pending[OF assms(1)])
      with Received Cons d show ?thesis
        by (simp add: received_live[OF assms(1)] result_of_def map_add_def raised_or_none_def)
    qed
  next
    case (Closed r)
    with assms(2) show ?thesis by simp
  qed (use res in \<open>simp_all add: call_defs got_code_live[OF assms(1)]
         got_verifier_live[OF assms(1)] got_version_live[OF assms(1)] raised_or_none_def\<close>)
qed

lemma pairing_run:
  assumes "live s" "open_session es" "w_received_data s = [] \<or> w_received_observers s = []"
  shows
    "(\<forall>(d, p)\<in>set (zip (w_received_observers s @ futures (\<lambda>e. e = WhenReceived) s es)
                       (w_received_data s @ payloads es)).
        result_of (w_deferreds (run s es)) d = Some p) \<and>
     w_received_data (run s es) =
       drop (length (w_received_observers s @ futures (\<lambda>e. e = WhenReceived) s es))
         (w_received_data s @ payloads es) \<and>
     w_received_observers (run s es) =
       drop (length (w_received_data s @ payloads es))
         (w_received_observers s @ futures (\<lambda>e. e = WhenReceived) s es)"
  using assms
proof (induction es arbitrary: s)
  case Nil
  then show ?case by auto
next
  case (Cons e es)
  let ?s = "snd (step s e)"
  from Cons.prems have nc: "\<not> is_Closed e" and op: "open_session es"
    by (simp_all add: open_session_Cons)
  have live: "live ?s" using Cons.prems(1) nc by (rule live_step)
  have q: "w_received_data ?s = [] \<or> w_received_observers ?s = []"
    using Cons.prems(3) by (rule step_queues)
  note ih = Cons.IH[OF live op q]
  from pairing_step[OF Cons.prems(1) nc Cons.prems(3), of es]
  show ?case
  proof (elim disjE exE conjE)
    assume "w_received_observers s @ futures (\<lambda>e. e = WhenReceived) s (e # es) =
        w_received_observers ?s @ futures (\<lambda>e. e = WhenReceived) ?s es"
      and "w_received_data s @ payloads (e # es) = w_received_data ?s @ payloads es"
    with ih show ?thesis by (simp del: futures.simps payloads.simps)
  next
    fix d p
    assume "w_received_observers s @ futures (\<lambda>e. e = WhenReceived) s (e # es) =
          d # w_received_observers ?s @ futures (\<lambda>e. e = WhenReceived) ?s es"
      and "w_received_data s @ payloads (e # es) = p # w_received_data ?s @ payloads es"
      and r: "result_of (w_deferreds ?s) d = Some p"
    moreover from r have "result_of (w_deferreds (run ?s es)) d = Some p" by (rule run_result)
    ultimately show ?thesis using ih by (simp del: futures.simps payloads.simps)
  qed
qed

lemma zip_results:
  "(\<forall>(d, p)\<in>set (zip xs ys). f d = Some p) \<Longrightarrow>
   map f (take (length ys) xs) = map Some (take (length xs) ys)"
proof (induction xs arbitrary: ys)
  case Nil
  then show ?case by simp
next
  case (Cons x xs)
  then show ?case by (cases ys) auto
qed

text \<open>
  Claim C6. In a session in which \<^verbatim>\<open>closed\<close> never fires, take the payloads of the
  \<^verbatim>\<open>received\<close> events in delivery order (there are \<open>N\<close>) and the futures returned by the
  \<^verbatim>\<open>when_received\<close> calls in call order (there are \<open>M\<close>), however the two kinds are
  interleaved with each other and with the other calls and events. The \<open>i\<close>-th request
  has the \<open>i\<close>-th payload as its result, for the first \<open>min N M\<close> of both. The payloads
  beyond the \<open>M\<close>-th are exactly the queue of undelivered payloads, the requests beyond the
  \<open>N\<close>-th are exactly the queue of waiting requests, and those are still pending. The
  requests are distinct Deferreds and no Deferred is fired twice, so every request pairs
  with one payload.
\<close>

theorem fifo_pairing:
  assumes "open_session es"
  shows
    "map (result_of (w_deferreds (run init es)))
       (take (length (payloads es)) (futures (\<lambda>e. e = WhenReceived) init es)) =
     map Some (take (length (futures (\<lambda>e. e = WhenReceived) init es)) (payloads es)) \<and>
     w_received_data (run init es) =
       drop (length (futures (\<lambda>e. e = WhenReceived) init es)) (payloads es) \<and>
     w_received_observers (run init es) =
       drop (length (payloads es)) (futures (\<lambda>e. e = WhenReceived) init es) \<and>
     (\<forall>d\<in>set (drop (length (payloads es)) (futures (\<lambda>e. e = WhenReceived) init es)).
        pending (run init es) d) \<and>
     distinct (futures (\<lambda>e. e = WhenReceived) init es) \<and>
     distinct (map fst (fired (w_deferreds (run init es))))"
proof -
  let ?s = "run init es"
  let ?R = "futures (\<lambda>e. e = WhenReceived) init es"
  have live: "live ?s" using assms by (rule live_run_init)
  have q: "w_received_data init = [] \<or> w_received_observers init = []"
    by (simp add: init_def)
  from pairing_run[OF live_init assms q]
  have z: "\<forall>(d, p)\<in>set (zip ?R (payloads es)). result_of (w_deferreds ?s) d = Some p"
    and dat: "w_received_data ?s = drop (length ?R) (payloads es)"
    and obs: "w_received_observers ?s = drop (length (payloads es)) ?R"
    by (simp_all add: init_def)
  have p: "\<forall>d\<in>set (drop (length (payloads es)) ?R). pending ?s d"
  proof
    fix d assume "d \<in> set (drop (length (payloads es)) ?R)"
    with obs have "d \<in> set (observers ?s)" by (simp add: observers_def)
    then show "pending ?s d" using live_observers_pending[OF live] by (simp add: pending_def)
  qed
  have dist: "distinct (map fst (fired (w_deferreds ?s)))"
    using live_allocated[OF live] by (simp add: allocated_def heap_ok_def)
  from zip_results[OF z] dat obs p futures_distinct[of _ init es] dist show ?thesis by simp
qed

text \<open>
  Claim C6 at a session with two payloads and three requests: the first payload is queued
  and handed to the first request, the second request waits for the second payload, the
  third request is left waiting.
\<close>

theorem fifo_pairing_witness:
  "open_session [Received (PBytes ''a''), WhenReceived, WhenReceived, WhenReceived,
      Received (PBytes ''b'')] \<and>
   futures (\<lambda>e. e = WhenReceived) init [Received (PBytes ''a''), WhenReceived, WhenReceived,
      WhenReceived, Received (PBytes ''b'')] = [0, 1, 2] \<and>
   payloads [Received (PBytes ''a''), WhenReceived, WhenReceived, WhenReceived,
      Received (PBytes ''b'')] = [PBytes ''a'', PBytes ''b''] \<and>
   result_of (w_deferreds (run init [Received (PBytes ''a''), WhenReceived, WhenReceived,
      WhenReceived, Received (PBytes ''b'')])) 0 = Some (PBytes ''a'') \<and>
   result_of (w_deferreds (run init [Received (PBytes ''a''), WhenReceived, WhenReceived,
      WhenReceived, Received (PBytes ''b'')])) 1 = Some (PBytes ''b'') \<and>
   result_of (w_deferreds (run init [Received (PBytes ''a''), WhenReceived, WhenReceived,
      WhenReceived, Received (PBytes ''b'')])) 2 = None \<and>
   w_received_data (run init [Received (PBytes ''a''), WhenReceived, WhenReceived,
      WhenReceived, Received (PBytes ''b'')]) = [] \<and>
   w_received_observers (run init [Received (PBytes ''a''), WhenReceived, WhenReceived,
      WhenReceived, Received (PBytes ''b'')]) = [2]"
  using fifo_pairing[of "[Received (PBytes ''a''), WhenReceived, WhenReceived, WhenReceived,
      Received (PBytes ''b'')]"]
  by (simp add: facade_defs open_session_def)

section \<open>The error fan-out of \<^verbatim>\<open>closed\<close>\<close>

text \<open>
  What \<^verbatim>\<open>closed(r)\<close> does for the futures of \<^verbatim>\<open>when_verifier\<close>, \<^verbatim>\<open>when_version\<close> and
  \<^verbatim>\<open>when_received\<close> that are pending: they fail with the observer result, which is
  \<^verbatim>\<open>Failure(r)\<close> for an exception \<open>r\<close>.
\<close>

lemma pending_futures_fail:
  assumes "open_session es" "c \<in> {WhenVerifier, WhenVersion, WhenReceived}"
    and "d \<in> set (futures (\<lambda>e. e = c) init es)" "pending (run init es) d"
  shows "result_of (w_deferreds (snd (closed (run init es) r))) d =
           Some (as_failure (fst (closed_results r)))"
proof -
  have live: "live (run init es)" using assms(1) by (rule live_run_init)
  from assms(2) have "registry c init = []" by (auto simp: init_def)
  with pending_future_registered[OF live_init assms(1), of d c] assms(3,4)
  have "d \<in> set (registry c (run init es))" by simp
  with assms(2)
  have "d \<in> set (w_verifier_observers (run init es) @ w_version_observers (run init es) @
                 w_received_observers (run init es))"
    by auto
  with assms(4) show ?thesis
    by (simp add: closed_live_result[OF live] pending_def)
qed

lemma observer_result_set: "fst (closed_results r) \<noteq> PNone"
  by (simp add: closed_results_def)

text \<open>
  After \<^verbatim>\<open>closed(r)\<close> the error is sticky: each of the four \<^verbatim>\<open>when_*\<close> calls, made at any
  later point, returns a new future that has failed with the observer result.
\<close>

lemma when_after_closed:
  assumes "open_session es" "open_session es'"
    and "c \<in> {WhenCode, WhenVerifier, WhenVersion, WhenReceived}"
  shows
    "fst (step (run (snd (closed (run init es) r)) es') c) =
       Returned_Deferred (next_id (w_deferreds (run (snd (closed (run init es) r)) es')))"
    "result_of (w_deferreds (snd (step (run (snd (closed (run init es) r)) es') c)))
        (next_id (w_deferreds (run (snd (closed (run init es) r)) es'))) =
       Some (as_failure (fst (closed_results r)))"
proof -
  let ?c = "snd (closed (run init es) r)"
  let ?t = "run ?c es'"
  have live: "live (run init es)" using assms(1) by (rule live_run_init)
  have "allocated ?c" using allocated_closed[OF live_allocated[OF live]] .
  then have "allocated ?t" by (rule allocated_run)
  then have fresh: "result_of (w_deferreds ?t) (next_id (w_deferreds ?t)) = None"
    by (rule allocated_fresh)
  have res: "w_observer_result ?t = fst (closed_results r)"
    using results_run[OF assms(2), of ?c] by (simp add: closed_live_fields(3)[OF live])
  with observer_result_set[of r] have set: "w_observer_result ?t \<noteq> PNone" by simp
  from assms(3) res set
  show "fst (step ?t c) = Returned_Deferred (next_id (w_deferreds ?t))"
    by (auto simp: call_defs)
  from assms(3) res set fresh
  show "result_of (w_deferreds (snd (step ?t c))) (next_id (w_deferreds ?t)) =
          Some (as_failure (fst (closed_results r)))"
    by (auto simp: call_defs result_of_def map_add_def)
qed

end
